theory Spec2Isabelle
  imports Main
begin

section \<open>Data model of cache.go\<close>

text \<open>
  A Go \<^verbatim>\<open>interface{}\<close> value is either \<^verbatim>\<open>nil\<close> or carries a payload. The cache stores
  and returns such values without looking inside them.
\<close>

datatype 'v iface = GoNil | GoVal 'v

datatype panic = Panic string | NilDereference

record 'v dirtyElement =
  modified :: bool
  removed :: bool
  de_key :: string
  de_value :: "'v iface"

record 'v cacheItem =
  item_key :: string
  item_value :: "'v iface"

text \<open>
  The \<^verbatim>\<open>Flusher\<close> interface: two methods acting on the state \<open>'s\<close> of the external store.
  The methods are code of the caller: a call either returns, with the new state of the
  store, or panics. A flusher that is a \<^verbatim>\<open>nil\<close> pointer inside a non-\<^verbatim>\<open>nil\<close> interface value
  is such an object, with methods that dereference their receiver and panic.
\<close>

record ('v, 's) Flusher =
  Add :: "string \<Rightarrow> 'v iface \<Rightarrow> 's \<Rightarrow> panic + 's"
  Remove :: "string \<Rightarrow> 's \<Rightarrow> panic + 's"

text \<open>
  A \<^verbatim>\<open>*list.Element\<close> is an address. The store \<open>elems\<close> gives the \<^verbatim>\<open>cacheItem\<close> that the
  element at an address points to, \<open>nextElem\<close> is the next address the allocator hands
  out. The recency list \<open>list\<close> is the sequence of element addresses from front to back,
  and the index \<open>data\<close> maps a key to an element address, as the Go map does. The map
  only ever receives elements returned by \<^verbatim>\<open>PushFront\<close>, so its values are addresses and
  never \<^verbatim>\<open>nil\<close>. The mutex is left out: the operations are modelled one call at a time.
\<close>

type_synonym elem = nat

record 'v SimpleCache =
  elems :: "elem \<Rightarrow> 'v cacheItem"
  nextElem :: elem
  data :: "string \<rightharpoonup> elem"
  list :: "elem list"
  capacity :: int

text \<open>
  \<^verbatim>\<open>Cache\<close> has the fields of \<^verbatim>\<open>SimpleCache\<close> and those of the write-back machinery. The
  field \<open>sink\<close> is the state of the external store behind the flusher.
\<close>

record ('v, 's) Cache = "'v SimpleCache" +
  flushPeriod :: int
  dirtyList :: "'v dirtyElement list"
  flusher :: "('v, 's) Flusher option"
  maxNrDirty :: int
  sink :: 's

subsection \<open>The operations of container/list that the cache calls\<close>

definition list_PushFront :: "elem \<Rightarrow> elem list \<Rightarrow> elem list" where
  "list_PushFront e l = e # l"

definition list_MoveToFront :: "elem \<Rightarrow> elem list \<Rightarrow> elem list" where
  \<comment> \<open>no effect when the element is not (or no longer) an element of this list\<close>
  "list_MoveToFront e l = (if e \<in> set l then e # remove1 e l else l)"

definition list_Back :: "elem list \<Rightarrow> elem option" where
  "list_Back l = (if l = [] then None else Some (last l))"

definition list_Remove :: "elem \<Rightarrow> elem list \<Rightarrow> elem list" where
  "list_Remove e l = remove1 e l"

subsection \<open>Len\<close>

definition SimpleCache_Len :: "'v SimpleCache \<Rightarrow> int" where
  "SimpleCache_Len c = int (card (dom (data c)))"

definition Cache_Len :: "('v, 's) Cache \<Rightarrow> int" where
  "Cache_Len c = int (card (dom (data c)))"

subsection \<open>Constructors\<close>

definition zeroItem :: "'v cacheItem" where
  "zeroItem = \<lparr>item_key = [], item_value = GoNil\<rparr>"

definition NewSimple :: "int \<Rightarrow> 'v SimpleCache" where
  "NewSimple cap =
     (let initialCapacity = (if cap < 0 then 1024 else cap)
      in \<lparr>elems = (\<lambda>_. zeroItem), nextElem = 0, data = Map.empty, list = [],
          capacity = initialCapacity\<rparr>)"

text \<open>
  \<open>New\<close> takes the initial state of the external store as well. The goroutine that
  flushes periodically is not part of the sequential model.
\<close>

definition New :: "int \<Rightarrow> int \<Rightarrow> int \<Rightarrow> ('v, 's) Flusher option \<Rightarrow> 's \<Rightarrow> panic + ('v, 's) Cache" where
  "New cap maxDirty period fl s0 =
     (let initialCapacity = (if cap < 0 then 1024 else cap)
      in if fl = None then Inl (Panic ''Should use NewSimple'')
         else Inr \<lparr>elems = (\<lambda>_. zeroItem), nextElem = 0, data = Map.empty, list = [],
                   capacity = initialCapacity, flushPeriod = period, dirtyList = [],
                   flusher = fl, maxNrDirty = maxDirty, sink = s0\<rparr>)"

subsection \<open>Get\<close>

definition SimpleCache_Get :: "'v SimpleCache \<Rightarrow> string \<Rightarrow> 'v iface \<times> 'v SimpleCache" where
  "SimpleCache_Get c key =
     (case data c key of
        Some elem \<Rightarrow>
          (let item = elems c elem
           in (item_value item, c\<lparr>list := list_MoveToFront elem (list c)\<rparr>))
      | None \<Rightarrow> (GoNil, c))"

definition Cache_Get :: "('v, 's) Cache \<Rightarrow> string \<Rightarrow> 'v iface \<times> ('v, 's) Cache" where
  "Cache_Get c key =
     (case data c key of
        Some elem \<Rightarrow>
          (let item = elems c elem
           in (item_value item, c\<lparr>list := list_MoveToFront elem (list c)\<rparr>))
      | None \<Rightarrow> (GoNil, c))"

subsection \<open>Set\<close>

text \<open>
  \<^verbatim>\<open>c.list.Back()\<close> is \<^verbatim>\<open>nil\<close> on an empty list, and reading \<^verbatim>\<open>last.Value\<close> would then
  panic: that is the \<open>Inl\<close> branch.
\<close>

definition SimpleCache_Set :: "'v SimpleCache \<Rightarrow> string \<Rightarrow> 'v iface \<Rightarrow> panic + 'v SimpleCache" where
  "SimpleCache_Set c key val =
     (case data c key of
        Some e \<Rightarrow>
          Inr (c\<lparr>elems := (elems c)(e := (elems c e)\<lparr>item_value := val\<rparr>),
                 list := list_MoveToFront e (list c)\<rparr>)
      | None \<Rightarrow>
          (let elem = nextElem c;
               c1 = c\<lparr>elems := (elems c)(elem := \<lparr>item_key = key, item_value = val\<rparr>),
                      nextElem := Suc elem,
                      list := list_PushFront elem (list c)\<rparr>;
               c2 = c1\<lparr>data := (data c1)(key \<mapsto> elem)\<rparr>
           in if capacity c2 \<ge> 0 \<and> int (card (dom (data c2))) > capacity c2
              then (case list_Back (list c2) of
                      None \<Rightarrow> Inl NilDereference
                    | Some lastElem \<Rightarrow>
                        (let item = elems c2 lastElem
                         in Inr (c2\<lparr>list := list_Remove lastElem (list c2),
                                    data := (data c2)(item_key item := None)\<rparr>)))
              else Inr c2))"

subsection \<open>Delete\<close>

definition SimpleCache_Delete :: "'v SimpleCache \<Rightarrow> string \<Rightarrow> 'v iface \<times> 'v SimpleCache" where
  "SimpleCache_Delete c key =
     (case data c key of
        Some elem \<Rightarrow>
          (let c1 = c\<lparr>data := (data c)(key := None)\<rparr>;
               item = elems c1 elem
           in (item_value item, c1))
      | None \<Rightarrow> (GoNil, c))"

subsection \<open>Flush\<close>

definition SimpleCache_Flush :: "'v SimpleCache \<Rightarrow> 'v SimpleCache" where
  "SimpleCache_Flush c = c"

text \<open>
  The loop of \<^verbatim>\<open>Cache.Flush\<close> over the dirty list, front to back. A method call on a
  \<^verbatim>\<open>nil\<close> flusher panics, and a panic inside a method of the flusher is not recovered: it
  ends the loop and leaves \<^verbatim>\<open>Flush\<close>.
\<close>

fun flushLoop :: "('v, 's) Flusher option \<Rightarrow> 'v dirtyElement list \<Rightarrow> 's \<Rightarrow> panic + 's" where
  "flushLoop fl [] s = Inr s"
| "flushLoop fl (de # es) s =
     (if removed de then
        (case fl of
           None \<Rightarrow> Inl NilDereference
         | Some f \<Rightarrow>
             (case Remove f (de_key de) s of
                Inl p \<Rightarrow> Inl p
              | Inr s' \<Rightarrow> flushLoop fl es s'))
      else if modified de then
        (case fl of
           None \<Rightarrow> Inl NilDereference
         | Some f \<Rightarrow>
             (case Add f (de_key de) (de_value de) s of
                Inl p \<Rightarrow> Inl p
              | Inr s' \<Rightarrow> flushLoop fl es s'))
      else flushLoop fl es s)"

definition Cache_Flush :: "('v, 's) Cache \<Rightarrow> panic + ('v, 's) Cache" where
  "Cache_Flush c =
     (case flushLoop (flusher c) (dirtyList c) (sink c) of
        Inl p \<Rightarrow> Inl p
      | Inr s \<Rightarrow> Inr (c\<lparr>sink := s, dirtyList := []\<rparr>))"

definition checkAndFlush :: "('v, 's) Cache \<Rightarrow> panic + ('v, 's) Cache" where
  "checkAndFlush c =
     (if maxNrDirty c \<ge> 0 \<and> int (length (dirtyList c)) \<ge> maxNrDirty c
      then Cache_Flush c
      else Inr c)"

subsection \<open>The write-back cache: Set and Delete\<close>

text \<open>The body of \<^verbatim>\<open>Cache.Set\<close>, which runs with the lock held.\<close>

definition Cache_Set_body :: "('v, 's) Cache \<Rightarrow> string \<Rightarrow> 'v iface \<Rightarrow> panic + ('v, 's) Cache" where
  "Cache_Set_body c key val =
     (let de = \<lparr>modified = True, removed = False, de_key = key, de_value = val\<rparr>
      in case data c key of
           Some e \<Rightarrow>
             Inr (c\<lparr>elems := (elems c)(e := (elems c e)\<lparr>item_value := val\<rparr>),
                    list := list_MoveToFront e (list c),
                    dirtyList := dirtyList c @ [de]\<rparr>)
         | None \<Rightarrow>
             (let elem = nextElem c;
                  c1 = c\<lparr>elems := (elems c)(elem := \<lparr>item_key = key, item_value = val\<rparr>),
                         nextElem := Suc elem,
                         list := list_PushFront elem (list c)\<rparr>;
                  c2 = c1\<lparr>data := (data c1)(key \<mapsto> elem)\<rparr>;
                  c3 = c2\<lparr>dirtyList := dirtyList c2 @ [de]\<rparr>
              in if capacity c3 \<ge> 0 \<and> int (card (dom (data c3))) > capacity c3
                 then (case list_Back (list c3) of
                         None \<Rightarrow> Inl NilDereference
                       | Some lastElem \<Rightarrow>
                           (let item = elems c3 lastElem
                            in Inr (c3\<lparr>list := list_Remove lastElem (list c3),
                                       data := (data c3)(item_key item := None)\<rparr>)))
                 else Inr c3))"

text \<open>
  The deferred calls run after the body, the unlock first and \<^verbatim>\<open>checkAndFlush\<close> last.
\<close>

definition Cache_Set :: "('v, 's) Cache \<Rightarrow> string \<Rightarrow> 'v iface \<Rightarrow> panic + ('v, 's) Cache" where
  "Cache_Set c key val =
     (case Cache_Set_body c key val of
        Inl p \<Rightarrow> Inl p
      | Inr c' \<Rightarrow> checkAndFlush c')"

definition Cache_Delete :: "('v, 's) Cache \<Rightarrow> string \<Rightarrow> 'v iface \<times> ('v, 's) Cache" where
  "Cache_Delete c key =
     (let de = \<lparr>modified = False, removed = True, de_key = key, de_value = GoNil\<rparr>;
          c0 = c\<lparr>dirtyList := dirtyList c @ [de]\<rparr>
      in case data c0 key of
           Some elem \<Rightarrow>
             (let c1 = c0\<lparr>data := (data c0)(key := None)\<rparr>;
                  item = elems c1 elem
              in (item_value item, c1))
         | None \<Rightarrow> (GoNil, c0))"

subsection \<open>The flusher of cache\_test.go\<close>

text \<open>\<^verbatim>\<open>memFlusher\<close> keeps a Go map: \<^verbatim>\<open>Add\<close> stores, \<^verbatim>\<open>Remove\<close> deletes.\<close>

definition memFlusher :: "('v, string \<rightharpoonup> 'v iface) Flusher" where
  "memFlusher =
     \<lparr>Add = (\<lambda>key val m. Inr (m(key \<mapsto> val))), Remove = (\<lambda>key m. Inr (m(key := None)))\<rparr>"

text \<open>
  The same methods on a \<^verbatim>\<open>nil\<close> \<^verbatim>\<open>*memFlusher\<close>: both start with \<^verbatim>\<open>f.m.Lock()\<close>, which
  dereferences the receiver. Passed to \<^verbatim>\<open>New\<close>, such a pointer is a flusher that is not
  \<^verbatim>\<open>nil\<close>.
\<close>

definition nilMemFlusher :: "('v, string \<rightharpoonup> 'v iface) Flusher" where
  "nilMemFlusher =
     \<lparr>Add = (\<lambda>key val m. Inl NilDereference), Remove = (\<lambda>key m. Inl NilDereference)\<rparr>"

subsection \<open>Sequences of calls\<close>

datatype 'v op = OpSet string "'v iface" | OpGet string | OpDelete string | OpFlush

fun SimpleCache_step :: "'v SimpleCache \<Rightarrow> 'v op \<Rightarrow> panic + 'v SimpleCache" where
  "SimpleCache_step c (OpSet k v) = SimpleCache_Set c k v"
| "SimpleCache_step c (OpGet k) = Inr (snd (SimpleCache_Get c k))"
| "SimpleCache_step c (OpDelete k) = Inr (snd (SimpleCache_Delete c k))"
| "SimpleCache_step c OpFlush = Inr (SimpleCache_Flush c)"

fun SimpleCache_run :: "'v SimpleCache \<Rightarrow> 'v op list \<Rightarrow> panic + 'v SimpleCache" where
  "SimpleCache_run c [] = Inr c"
| "SimpleCache_run c (x # xs) =
     (case SimpleCache_step c x of Inl p \<Rightarrow> Inl p | Inr c' \<Rightarrow> SimpleCache_run c' xs)"

fun Cache_step :: "('v, 's) Cache \<Rightarrow> 'v op \<Rightarrow> panic + ('v, 's) Cache" where
  "Cache_step c (OpSet k v) = Cache_Set c k v"
| "Cache_step c (OpGet k) = Inr (snd (Cache_Get c k))"
| "Cache_step c (OpDelete k) = Inr (snd (Cache_Delete c k))"
| "Cache_step c OpFlush = Cache_Flush c"

fun Cache_run :: "('v, 's) Cache \<Rightarrow> 'v op list \<Rightarrow> panic + ('v, 's) Cache" where
  "Cache_run c [] = Inr c"
| "Cache_run c (x # xs) =
     (case Cache_step c x of Inl p \<Rightarrow> Inl p | Inr c' \<Rightarrow> Cache_run c' xs)"

section \<open>Notions used to state the properties\<close>

text \<open>
  The key a call names, the number of calls made since a key was last named (its age), the
  keys inserted by the \<^verbatim>\<open>Set\<close> calls of a history, and the value a history leaves stored
  under a key when nothing is ever evicted.
\<close>

fun op_key :: "'v op \<Rightarrow> string option" where
  "op_key (OpSet k v) = Some k"
| "op_key (OpGet k) = Some k"
| "op_key (OpDelete k) = Some k"
| "op_key OpFlush = None"

definition age :: "string \<Rightarrow> 'v op list \<Rightarrow> nat" where
  "age k ops = length (takeWhile (\<lambda>x. op_key x \<noteq> Some k) (rev ops))"

fun inserted_keys :: "'v op list \<Rightarrow> string list" where
  "inserted_keys [] = []"
| "inserted_keys (OpSet k v # xs) = k # inserted_keys xs"
| "inserted_keys (x # xs) = inserted_keys xs"

fun is_Set_or_Get :: "'v op \<Rightarrow> bool" where
  "is_Set_or_Get (OpSet k v) = True"
| "is_Set_or_Get (OpGet k) = True"
| "is_Set_or_Get x = False"

fun last_write :: "string \<Rightarrow> 'v op list \<Rightarrow> 'v iface option" where
  "last_write k [] = None"
| "last_write k (OpSet k' v # xs) = (if k' = k then Some v else last_write k xs)"
| "last_write k (OpDelete k' # xs) = (if k' = k then None else last_write k xs)"
| "last_write k (x # xs) = last_write k xs"

definition stored :: "string \<Rightarrow> 'v op list \<Rightarrow> 'v iface option" where
  "stored k ops = last_write k (rev ops)"

definition lru_key :: "'v op list \<Rightarrow> string \<Rightarrow> bool" where
  "lru_key ops k \<longleftrightarrow>
     k \<in> set (inserted_keys ops) \<and> (\<forall>k2 \<in> set (inserted_keys ops). age k2 ops \<le> age k ops)"

text \<open>
  The keys held by the nodes of the recency list, front to back, and the invariant that
  index and list describe the same entries.
\<close>

definition keys_of :: "'v SimpleCache \<Rightarrow> string list" where
  "keys_of c = map (\<lambda>e. item_key (elems c e)) (list c)"

definition lru_inv :: "'v SimpleCache \<Rightarrow> bool" where
  "lru_inv c \<longleftrightarrow>
     distinct (keys_of c) \<and>
     (\<forall>e \<in> set (list c). e < nextElem c \<and> data c (item_key (elems c e)) = Some e) \<and>
     dom (data c) = set (keys_of c)"

text \<open>
  Every entry of the index points at a node that was allocated, carries the entry's key and
  holds the value that the history last wrote under that key.
\<close>

definition val_inv :: "'v op list \<Rightarrow> 'v SimpleCache \<Rightarrow> bool" where
  "val_inv ops c \<longleftrightarrow>
     (\<forall>k e. data c k = Some e \<longrightarrow>
        e < nextElem c \<and> item_key (elems c e) = k \<and>
        stored k ops = Some (item_value (elems c e)))"

text \<open>
  What a caller observes after the recency list was full and one more key \<open>k'\<close> was set:
  the least recently touched key is gone, every other inserted key is present with the
  value last written under it, and the new key is present. A key is least recently touched
  when no inserted key has a greater age.
\<close>

definition lru_outcome ::
    "'v op list \<Rightarrow> string \<Rightarrow> 'v iface \<Rightarrow> (string \<Rightarrow> 'v iface) \<Rightarrow> (string \<Rightarrow> bool) \<Rightarrow> bool" where
  "lru_outcome ops k' v' get present \<longleftrightarrow>
     (\<forall>k \<in> set (inserted_keys ops).
        if lru_key ops k then \<not> present k \<and> get k = GoNil
        else present k \<and> Some (get k) = stored k ops) \<and>
     present k' \<and> get k' = v'"

text \<open>
  The calls a flusher receives. \<open>replay\<close> makes a sequence of calls on a flusher, in order,
  and stops at the first call that panics; \<open>record_calls\<close> is the call that \<^verbatim>\<open>Flush\<close>
  makes for one dirty record and \<open>op_calls\<close> the call that a cache operation asks for.
  \<open>upsertRecord\<close> and \<open>removeRecord\<close> are the records that \<^verbatim>\<open>Cache.Set\<close> and
  \<^verbatim>\<open>Cache.Delete\<close> append. A flusher returns when none of its calls panics.
\<close>

datatype 'v sinkCall = CallAdd string "'v iface" | CallRemove string

fun replay :: "('v, 's) Flusher \<Rightarrow> 'v sinkCall list \<Rightarrow> 's \<Rightarrow> panic + 's" where
  "replay f [] s = Inr s"
| "replay f (CallAdd k v # cs) s =
     (case Add f k v s of Inl p \<Rightarrow> Inl p | Inr s' \<Rightarrow> replay f cs s')"
| "replay f (CallRemove k # cs) s =
     (case Remove f k s of Inl p \<Rightarrow> Inl p | Inr s' \<Rightarrow> replay f cs s')"

definition flusher_returns :: "('v, 's) Flusher \<Rightarrow> bool" where
  "flusher_returns f \<longleftrightarrow>
     (\<forall>k v s. \<exists>s'. Add f k v s = Inr s') \<and> (\<forall>k s. \<exists>s'. Remove f k s = Inr s')"

definition record_calls :: "'v dirtyElement \<Rightarrow> 'v sinkCall list" where
  "record_calls de =
     (if removed de then [CallRemove (de_key de)]
      else if modified de then [CallAdd (de_key de) (de_value de)]
      else [])"

definition queue_calls :: "'v dirtyElement list \<Rightarrow> 'v sinkCall list" where
  "queue_calls es = concat (map record_calls es)"

fun op_calls :: "'v op \<Rightarrow> 'v sinkCall list" where
  "op_calls (OpSet k v) = [CallAdd k v]"
| "op_calls (OpDelete k) = [CallRemove k]"
| "op_calls (OpGet k) = []"
| "op_calls OpFlush = []"

definition upsertRecord :: "string \<Rightarrow> 'v iface \<Rightarrow> 'v dirtyElement" where
  "upsertRecord k v = \<lparr>modified = True, removed = False, de_key = k, de_value = v\<rparr>"

definition removeRecord :: "string \<Rightarrow> 'v dirtyElement" where
  "removeRecord k = \<lparr>modified = False, removed = True, de_key = k, de_value = GoNil\<rparr>"

text \<open>
  The structural invariant of the data model: index and list have the same size, every
  key of the index resolves to a node of the list that holds this key, and no two nodes of
  the list hold the same key.
\<close>

definition index_list_inv :: "('v, 'z) SimpleCache_scheme \<Rightarrow> bool" where
  "index_list_inv c \<longleftrightarrow>
     card (dom (data c)) = length (list c) \<and>
     (\<forall>k e. data c k = Some e \<longrightarrow> e \<in> set (list c) \<and> item_key (elems c e) = k) \<and>
     distinct (map (\<lambda>e. item_key (elems c e)) (list c))"

lemmas list_ops = list_PushFront_def list_MoveToFront_def list_Back_def list_Remove_def

section \<open>Facts about lists\<close>

lemma map_remove1_inj:
  "inj_on f (set xs) \<Longrightarrow> x \<in> set xs \<Longrightarrow> map f (remove1 x xs) = remove1 (f x) (map f xs)"
proof (induction xs)
  case Nil
  then show ?case by simp
next
  case (Cons a xs)
  show ?case
  proof (cases "a = x")
    case True
    then show ?thesis by simp
  next
    case False
    with Cons.prems have "x \<in> set xs" and "f a \<noteq> f x" and "inj_on f (set xs)"
      by (auto simp: inj_on_def)
    with Cons.IH False show ?thesis by simp
  qed
qed

lemma remove1_last_distinct:
  "distinct xs \<Longrightarrow> xs \<noteq> [] \<Longrightarrow> remove1 (last xs) xs = butlast xs"
proof (induction xs rule: rev_induct)
  case Nil
  then show ?case by simp
next
  case (snoc x xs)
  then show ?case by (simp add: remove1_append)
qed

lemma sorted_wrt_remove1_gen: "sorted_wrt P xs \<Longrightarrow> sorted_wrt P (remove1 x xs)"
  by (induction xs) (auto dest: notin_set_remove1)

section \<open>The eviction step always finds a last element\<close>

lemma SimpleCache_Set_total: "\<exists>c'. SimpleCache_Set c k v = Inr c'"
  by (simp add: SimpleCache_Set_def Let_def list_ops split: option.split)

lemma Cache_Set_body_total: "\<exists>c'. Cache_Set_body c k v = Inr c'"
  by (simp add: Cache_Set_body_def Let_def list_ops split: option.split)

section \<open>The write-back cache acts on its recency structures as the plain cache does\<close>

lemma truncate_Set_body:
  "Cache_Set_body c k v = Inr c' \<Longrightarrow>
   SimpleCache_Set (SimpleCache.truncate c) k v = Inr (SimpleCache.truncate c')"
  by (auto simp: Cache_Set_body_def SimpleCache_Set_def SimpleCache.truncate_def Let_def list_ops
      split: option.splits if_splits)

lemma truncate_Get:
  "SimpleCache_Get (SimpleCache.truncate c) k =
     (fst (Cache_Get c k), SimpleCache.truncate (snd (Cache_Get c k)))"
  by (auto simp: Cache_Get_def SimpleCache_Get_def SimpleCache.truncate_def Let_def list_ops
      split: option.splits if_splits)

lemma truncate_Delete:
  "SimpleCache_Delete (SimpleCache.truncate c) k =
     (fst (Cache_Delete c k), SimpleCache.truncate (snd (Cache_Delete c k)))"
  by (auto simp: Cache_Delete_def SimpleCache_Delete_def SimpleCache.truncate_def Let_def
      split: option.splits if_splits)

lemma truncate_Flush:
  "Cache_Flush c = Inr c' \<Longrightarrow> SimpleCache.truncate c' = SimpleCache.truncate c"
  by (auto simp: Cache_Flush_def SimpleCache.truncate_def split: sum.splits)

lemma truncate_checkAndFlush:
  "checkAndFlush c = Inr c' \<Longrightarrow> SimpleCache.truncate c' = SimpleCache.truncate c"
  by (auto simp: checkAndFlush_def truncate_Flush split: if_splits)

lemma truncate_Set:
  "Cache_Set c k v = Inr c' \<Longrightarrow>
   SimpleCache_Set (SimpleCache.truncate c) k v = Inr (SimpleCache.truncate c')"
proof -
  assume a: "Cache_Set c k v = Inr c'"
  then obtain c1 where b: "Cache_Set_body c k v = Inr c1" and f: "checkAndFlush c1 = Inr c'"
    by (auto simp: Cache_Set_def split: sum.splits)
  from truncate_Set_body [OF b] truncate_checkAndFlush [OF f] show ?thesis by simp
qed

lemma truncate_step:
  "Cache_step c x = Inr c' \<Longrightarrow>
   SimpleCache_step (SimpleCache.truncate c) x = Inr (SimpleCache.truncate c')"
  by (cases x) (auto simp: truncate_Set truncate_Get truncate_Delete truncate_Flush SimpleCache_Flush_def)

lemma truncate_run:
  "Cache_run c xs = Inr c' \<Longrightarrow>
   SimpleCache_run (SimpleCache.truncate c) xs = Inr (SimpleCache.truncate c')"
proof (induction xs arbitrary: c)
  case Nil
  then show ?case by simp
next
  case (Cons x xs)
  from Cons.prems obtain c1 where s: "Cache_step c x = Inr c1" and r: "Cache_run c1 xs = Inr c'"
    by (auto split: sum.splits)
  from truncate_step [OF s] Cons.IH [OF r] show ?case by simp
qed

lemma truncate_New:
  "New cap m p fl s0 = Inr c \<Longrightarrow> SimpleCache.truncate c = NewSimple cap"
  by (auto simp: New_def NewSimple_def SimpleCache.truncate_def Let_def split: if_splits)

section \<open>The plain cache keeps index and list in step under Get and Set\<close>

lemma keys_of_NewSimple: "keys_of (NewSimple cap) = []"
  by (simp add: keys_of_def NewSimple_def Let_def)

lemma lru_inv_NewSimple: "lru_inv (NewSimple cap)"
  by (simp add: lru_inv_def keys_of_def NewSimple_def Let_def)

lemma capacity_NewSimple: "capacity (NewSimple cap) = (if cap < 0 then 1024 else cap)"
  by (simp add: NewSimple_def Let_def)

lemma lru_inv_card: "lru_inv c \<Longrightarrow> card (dom (data c)) = length (keys_of c)"
  by (simp add: lru_inv_def distinct_card)

lemma lru_inv_lookup:
  assumes "lru_inv c" and "data c k = Some e"
  shows "e \<in> set (list c) \<and> item_key (elems c e) = k"
proof -
  from assms have "k \<in> set (keys_of c)" by (auto simp: lru_inv_def)
  then obtain e' where e': "e' \<in> set (list c)" "item_key (elems c e') = k"
    by (auto simp: keys_of_def)
  with assms(1) have "data c k = Some e'" by (auto simp: lru_inv_def)
  with assms(2) e' show ?thesis by simp
qed

lemma lru_inv_inj: "lru_inv c \<Longrightarrow> inj_on (\<lambda>e. item_key (elems c e)) (set (list c))"
  by (simp add: lru_inv_def keys_of_def distinct_map)

lemma lru_inv_present: "lru_inv c \<Longrightarrow> (k \<in> set (keys_of c)) = (data c k \<noteq> None)"
  by (auto simp: lru_inv_def)

lemma keys_move_front:
  assumes "lru_inv c" and "data c k = Some e"
  shows "map (\<lambda>x. item_key (elems c x)) (list_MoveToFront e (list c)) = k # remove1 k (keys_of c)"
proof -
  from lru_inv_lookup [OF assms] have e: "e \<in> set (list c)" "item_key (elems c e) = k" by simp_all
  from map_remove1_inj [OF lru_inv_inj [OF assms(1)] e(1)] e show ?thesis
    by (simp add: list_MoveToFront_def keys_of_def)
qed

lemma set_move_front: "e \<in> set l \<Longrightarrow> set (list_MoveToFront e l) = set l"
proof -
  assume e: "e \<in> set l"
  have "x \<in> set (e # remove1 e l) \<longleftrightarrow> x \<in> set l" for x
    using e by (cases "x = e") simp_all
  then show ?thesis using e by (auto simp: list_MoveToFront_def)
qed

lemma SimpleCache_Get_present:
  assumes "lru_inv c" and "data c k = Some e"
  shows "lru_inv (snd (SimpleCache_Get c k)) \<and>
         keys_of (snd (SimpleCache_Get c k)) = k # remove1 k (keys_of c) \<and>
         data (snd (SimpleCache_Get c k)) = data c \<and>
         elems (snd (SimpleCache_Get c k)) = elems c \<and>
         nextElem (snd (SimpleCache_Get c k)) = nextElem c \<and>
         capacity (snd (SimpleCache_Get c k)) = capacity c"
proof -
  let ?c' = "snd (SimpleCache_Get c k)"
  from lru_inv_lookup [OF assms] have e: "e \<in> set (list c)" "item_key (elems c e) = k" by simp_all
  have c': "?c' = c\<lparr>list := list_MoveToFront e (list c)\<rparr>"
    using assms(2) by (simp add: SimpleCache_Get_def Let_def)
  have k: "keys_of ?c' = k # remove1 k (keys_of c)"
    using keys_move_front [OF assms] by (simp add: c' keys_of_def)
  have s: "set (list ?c') = set (list c)"
    using e(1) by (simp add: c' set_move_front)
  have kin: "k \<in> set (keys_of c)" using assms by (simp add: lru_inv_present)
  have "lru_inv ?c'"
    unfolding lru_inv_def k s
    using assms(1) kin by (auto simp: lru_inv_def c' dest: notin_set_remove1)
  with k show ?thesis by (simp add: c')
qed

lemma SimpleCache_Get_absent: "data c k = None \<Longrightarrow> snd (SimpleCache_Get c k) = c"
  by (simp add: SimpleCache_Get_def)

lemma SimpleCache_Set_present:
  assumes "lru_inv c" and "data c k = Some e"
  shows "\<exists>c'. SimpleCache_Set c k v = Inr c' \<and> lru_inv c' \<and>
           keys_of c' = k # remove1 k (keys_of c) \<and> capacity c' = capacity c"
proof -
  let ?c' = "c\<lparr>elems := (elems c)(e := (elems c e)\<lparr>item_value := v\<rparr>),
               list := list_MoveToFront e (list c)\<rparr>"
  from lru_inv_lookup [OF assms] have e: "e \<in> set (list c)" "item_key (elems c e) = k" by simp_all
  have r: "SimpleCache_Set c k v = Inr ?c'"
    using assms(2) by (simp add: SimpleCache_Set_def)
  have f: "(\<lambda>x. item_key (elems ?c' x)) = (\<lambda>x. item_key (elems c x))"
    by (rule ext) simp
  have k: "keys_of ?c' = k # remove1 k (keys_of c)"
    using keys_move_front [OF assms] by (simp only: keys_of_def f) simp
  have s: "set (list ?c') = set (list c)"
    using e(1) by (simp add: set_move_front)
  have kin: "k \<in> set (keys_of c)" using assms by (simp add: lru_inv_present)
  have "lru_inv ?c'"
    unfolding lru_inv_def k s
    using assms(1) kin by (auto simp: lru_inv_def dest: notin_set_remove1)
  with r k show ?thesis by simp
qed


lemma last_notin_butlast: "distinct xs \<Longrightarrow> xs \<noteq> [] \<Longrightarrow> last xs \<notin> set (butlast xs)"
proof -
  assume d: "distinct xs" and n: "xs \<noteq> []"
  from n have "xs = butlast xs @ [last xs]" by simp
  with d have "distinct (butlast xs @ [last xs])" by simp
  then show ?thesis by simp
qed

lemma set_butlast_distinct:
  "distinct xs \<Longrightarrow> xs \<noteq> [] \<Longrightarrow> set (butlast xs) = set xs - {last xs}"
proof -
  assume d: "distinct xs" and n: "xs \<noteq> []"
  from n have "set xs = set (butlast xs @ [last xs])" by simp
  then have "set xs = insert (last xs) (set (butlast xs))" by simp
  with last_notin_butlast [OF d n] show ?thesis by auto
qed

lemma lru_inv_push:
  fixes v :: "'v iface"
  assumes "lru_inv c" and "data c k = None"
  defines "c2 \<equiv> c\<lparr>elems := (elems c)(nextElem c := \<lparr>item_key = k, item_value = v\<rparr>),
                   nextElem := Suc (nextElem c),
                   list := list_PushFront (nextElem c) (list c),
                   data := (data c)(k \<mapsto> nextElem c)\<rparr>"
  shows "lru_inv c2 \<and> keys_of c2 = k # keys_of c"
proof -
  have old: "item_key (elems c2 x) = item_key (elems c x)" if "x \<in> set (list c)" for x
    using that assms(1) by (auto simp: c2_def lru_inv_def)
  have k: "keys_of c2 = k # keys_of c"
    using old by (simp add: keys_of_def c2_def list_PushFront_def)
  have kn: "k \<notin> set (keys_of c)"
    using assms(1,2) by (simp add: lru_inv_present)
  have b: "e < nextElem c2 \<and> data c2 (item_key (elems c2 e)) = Some e" if "e \<in> set (list c2)" for e
  proof (cases "e = nextElem c")
    case True
    then show ?thesis by (simp add: c2_def)
  next
    case False
    with that have e: "e \<in> set (list c)" by (simp add: c2_def list_PushFront_def)
    then have "item_key (elems c e) \<in> set (keys_of c)" by (simp add: keys_of_def)
    with kn have "item_key (elems c e) \<noteq> k" by auto
    moreover from e assms(1) have "e < nextElem c" "data c (item_key (elems c e)) = Some e"
      by (auto simp: lru_inv_def)
    ultimately show ?thesis using old [OF e] by (simp add: c2_def)
  qed
  have d: "dom (data c2) = set (keys_of c2)"
    using assms(1) by (simp add: k) (simp add: c2_def lru_inv_def)
  from assms(1) kn have "distinct (keys_of c2)" by (simp add: k lru_inv_def)
  with b d k show ?thesis by (simp add: lru_inv_def)
qed

lemma lru_inv_evict:
  assumes "lru_inv c" and "list c \<noteq> []"
  defines "c3 \<equiv> c\<lparr>list := list_Remove (last (list c)) (list c),
                   data := (data c)(item_key (elems c (last (list c))) := None)\<rparr>"
  shows "lru_inv c3 \<and> keys_of c3 = butlast (keys_of c)"
proof -
  from assms(1) have dk: "distinct (keys_of c)" by (simp add: lru_inv_def)
  then have dl: "distinct (list c)" by (simp add: keys_of_def distinct_map)
  have l: "list c3 = butlast (list c)"
    using remove1_last_distinct [OF dl assms(2)] by (simp add: c3_def list_Remove_def)
  have k: "keys_of c3 = butlast (keys_of c)"
    by (simp add: keys_of_def l map_butlast) (simp add: c3_def)
  have lk: "item_key (elems c (last (list c))) = last (keys_of c)"
    using assms(2) by (simp add: keys_of_def last_map)
  have ne: "keys_of c \<noteq> []" using assms(2) by (simp add: keys_of_def)
  have b: "e < nextElem c3 \<and> data c3 (item_key (elems c3 e)) = Some e" if "e \<in> set (list c3)" for e
  proof -
    from that have e: "e \<in> set (list c)" by (auto simp: l dest: in_set_butlastD)
    from that have "item_key (elems c e) \<in> set (map (\<lambda>e. item_key (elems c e)) (butlast (list c)))"
      by (simp add: l)
    then have "item_key (elems c e) \<in> set (butlast (keys_of c))"
      by (simp add: keys_of_def map_butlast)
    with last_notin_butlast [OF dk ne] have "item_key (elems c e) \<noteq> last (keys_of c)" by auto
    with e assms(1) show ?thesis by (auto simp: c3_def lru_inv_def lk)
  qed
  have d: "dom (data c3) = set (keys_of c3)"
    using assms(1) set_butlast_distinct [OF dk ne] by (simp add: k) (simp add: c3_def lk lru_inv_def)
  from dk have "distinct (keys_of c3)" by (simp add: k distinct_butlast)
  with b d k show ?thesis by (simp add: lru_inv_def)
qed

lemma SimpleCache_Set_absent:
  assumes "lru_inv c" and "data c k = None"
  shows "\<exists>c'. SimpleCache_Set c k v = Inr c' \<and> lru_inv c' \<and>
           keys_of c' =
             (if 0 \<le> capacity c \<and> capacity c < int (length (keys_of c)) + 1
              then butlast (k # keys_of c) else k # keys_of c) \<and>
           capacity c' = capacity c"
proof -
  define c2 where "c2 = c\<lparr>elems := (elems c)(nextElem c := \<lparr>item_key = k, item_value = v\<rparr>),
                   nextElem := Suc (nextElem c),
                   list := list_PushFront (nextElem c) (list c),
                   data := (data c)(k \<mapsto> nextElem c)\<rparr>"
  from lru_inv_push [OF assms, where v = v] have i2: "lru_inv c2" and k2: "keys_of c2 = k # keys_of c"
    by (simp_all add: c2_def)
  have cap: "capacity c2 = capacity c" by (simp add: c2_def)
  have n2: "list c2 \<noteq> []" by (simp add: c2_def list_PushFront_def)
  have card: "int (card (dom (data c2))) = int (length (keys_of c)) + 1"
    using lru_inv_card [OF i2] by (simp add: k2)
  have unf: "SimpleCache_Set c k v =
      (if 0 \<le> capacity c2 \<and> capacity c2 < int (card (dom (data c2)))
       then (case list_Back (list c2) of
               None \<Rightarrow> Inl NilDereference
             | Some lastElem \<Rightarrow>
                 Inr (c2\<lparr>list := list_Remove lastElem (list c2),
                         data := (data c2)(item_key (elems c2 lastElem) := None)\<rparr>))
       else Inr c2)"
    unfolding c2_def using assms(2)
    by (simp add: SimpleCache_Set_def Let_def cong: option.case_cong)
  show ?thesis
  proof (cases "0 \<le> capacity c \<and> capacity c < int (length (keys_of c)) + 1")
    case True
    let ?c3 = "c2\<lparr>list := list_Remove (last (list c2)) (list c2),
                   data := (data c2)(item_key (elems c2 (last (list c2))) := None)\<rparr>"
    have "SimpleCache_Set c k v = Inr ?c3"
      using True n2 by (simp only: unf card cap) (simp add: list_Back_def)
    with lru_inv_evict [OF i2 n2] k2 True cap show ?thesis by simp
  next
    case False
    have "SimpleCache_Set c k v = Inr c2"
      using False by (simp only: unf card cap) simp
    with i2 k2 False cap show ?thesis by auto
  qed
qed

section \<open>Sequences of Set and Get stay within the stored capacity\<close>

lemma SimpleCache_run_append:
  "SimpleCache_run c (xs @ ys) =
     (case SimpleCache_run c xs of Inl p \<Rightarrow> Inl p | Inr c' \<Rightarrow> SimpleCache_run c' ys)"
  by (induction xs arbitrary: c) (auto split: sum.splits)

lemma Cache_run_append:
  "Cache_run c (xs @ ys) =
     (case Cache_run c xs of Inl p \<Rightarrow> Inl p | Inr c' \<Rightarrow> Cache_run c' ys)"
  by (induction xs arbitrary: c) (auto split: sum.splits)

lemma SimpleCache_Set_keys:
  assumes "lru_inv c"
  shows "\<exists>c'. SimpleCache_Set c k v = Inr c' \<and> lru_inv c' \<and> capacity c' = capacity c \<and>
           keys_of c' =
             (if k \<in> set (keys_of c) then k # remove1 k (keys_of c)
              else if 0 \<le> capacity c \<and> capacity c < int (length (keys_of c)) + 1
                   then butlast (k # keys_of c) else k # keys_of c)"
proof (cases "data c k")
  case None
  with assms have "k \<notin> set (keys_of c)" by (simp add: lru_inv_present)
  with SimpleCache_Set_absent [OF assms None, of v] show ?thesis by auto
next
  case (Some e)
  with assms have "k \<in> set (keys_of c)" by (simp add: lru_inv_present)
  with SimpleCache_Set_present [OF assms Some, of v] show ?thesis by auto
qed

lemma SimpleCache_Get_keys:
  assumes "lru_inv c"
  shows "lru_inv (snd (SimpleCache_Get c k)) \<and>
         capacity (snd (SimpleCache_Get c k)) = capacity c \<and>
         keys_of (snd (SimpleCache_Get c k)) =
           (if k \<in> set (keys_of c) then k # remove1 k (keys_of c) else keys_of c)"
proof (cases "data c k")
  case None
  with assms have "k \<notin> set (keys_of c)" by (simp add: lru_inv_present)
  with SimpleCache_Get_absent [OF None] assms show ?thesis by simp
next
  case (Some e)
  with assms have "k \<in> set (keys_of c)" by (simp add: lru_inv_present)
  with SimpleCache_Get_present [OF assms Some] show ?thesis by simp
qed

lemma length_move_front: "k \<in> set ks \<Longrightarrow> length (k # remove1 k ks) = length ks"
  using length_pos_if_in_set [of k ks] by (simp add: length_remove1)

lemma SimpleCache_step_bounded:
  assumes "lru_inv c" and "0 \<le> capacity c" and "int (length (keys_of c)) \<le> capacity c"
    and "is_Set_or_Get x"
  shows "\<exists>c'. SimpleCache_step c x = Inr c' \<and> lru_inv c' \<and> capacity c' = capacity c \<and>
           int (length (keys_of c')) \<le> capacity c"
proof (cases x)
  case (OpSet k v)
  from SimpleCache_Set_keys [OF assms(1), of k v] obtain c' where
    c': "SimpleCache_Set c k v = Inr c'" "lru_inv c'" "capacity c' = capacity c"
      "keys_of c' =
             (if k \<in> set (keys_of c) then k # remove1 k (keys_of c)
              else if 0 \<le> capacity c \<and> capacity c < int (length (keys_of c)) + 1
                   then butlast (k # keys_of c) else k # keys_of c)"
    by blast
  have "int (length (keys_of c')) \<le> capacity c"
  proof (cases "k \<in> set (keys_of c)")
    case True
    with assms(3) c'(4) length_move_front [OF True] show ?thesis by simp
  next
    case False
    with assms(2,3) c'(4) show ?thesis by auto
  qed
  with c' OpSet show ?thesis by simp
next
  case (OpGet k)
  let ?c' = "snd (SimpleCache_Get c k)"
  from SimpleCache_Get_keys [OF assms(1), of k] have
    g: "lru_inv ?c'" "capacity ?c' = capacity c"
      "keys_of ?c' = (if k \<in> set (keys_of c) then k # remove1 k (keys_of c) else keys_of c)"
    by simp_all
  have "int (length (keys_of ?c')) \<le> capacity c"
  proof (cases "k \<in> set (keys_of c)")
    case True
    with assms(3) g(3) length_move_front [OF True] show ?thesis by simp
  next
    case False
    with assms(3) g(3) show ?thesis by simp
  qed
  with g OpGet show ?thesis by simp
next
  case (OpDelete k)
  with assms(4) show ?thesis by simp
next
  case OpFlush
  with assms(4) show ?thesis by simp
qed

lemma SimpleCache_run_bounded:
  assumes "lru_inv c" and "0 \<le> capacity c" and "int (length (keys_of c)) \<le> capacity c"
    and "list_all is_Set_or_Get ops"
  shows "\<exists>c'. SimpleCache_run c ops = Inr c' \<and> lru_inv c' \<and> capacity c' = capacity c \<and>
           int (length (keys_of c')) \<le> capacity c"
  using assms
proof (induction ops arbitrary: c)
  case Nil
  then show ?case by simp
next
  case (Cons x xs)
  from Cons.prems(4) have x: "is_Set_or_Get x" and xs: "list_all is_Set_or_Get xs" by simp_all
  from SimpleCache_step_bounded [OF Cons.prems(1-3) x] obtain c1 where
    c1: "SimpleCache_step c x = Inr c1" "lru_inv c1" "capacity c1 = capacity c"
      "int (length (keys_of c1)) \<le> capacity c"
    by blast
  from Cons.IH [OF c1(2) _ _ xs] c1 Cons.prems(2) show ?case by simp
qed

lemma NewSimple_run_bounded:
  assumes "list_all is_Set_or_Get ops"
  shows "\<exists>c. SimpleCache_run (NewSimple cap) ops = Inr c \<and>
           SimpleCache_Len c \<le> (if cap < 0 then 1024 else cap)"
proof -
  let ?c0 = "NewSimple cap :: 'a SimpleCache"
  have "0 \<le> capacity ?c0" "int (length (keys_of ?c0)) \<le> capacity ?c0"
    by (simp_all add: capacity_NewSimple keys_of_NewSimple)
  from SimpleCache_run_bounded [OF lru_inv_NewSimple this assms] obtain c where
    c: "SimpleCache_run ?c0 ops = Inr c" "lru_inv c" "int (length (keys_of c)) \<le> capacity ?c0"
    by blast
  from c(2,3) have "SimpleCache_Len c \<le> (if cap < 0 then 1024 else cap)"
    by (simp add: SimpleCache_Len_def lru_inv_card capacity_NewSimple)
  with c(1) show ?thesis by blast
qed

section \<open>With a flusher whose calls return the write-back cache runs every sequence of calls\<close>

lemma flushLoop_Some:
  assumes "flusher_returns f"
  shows "\<exists>s'. flushLoop (Some f) es s = Inr s'"
proof (induction es arbitrary: s)
  case Nil
  show ?case by simp
next
  case (Cons de es)
  from assms obtain s1 where s1: "Remove f (de_key de) s = Inr s1"
    unfolding flusher_returns_def by blast
  from assms obtain s2 where s2: "Add f (de_key de) (de_value de) s = Inr s2"
    unfolding flusher_returns_def by blast
  from Cons.IH [of s1] Cons.IH [of s2] Cons.IH [of s] show ?case
    by (simp add: s1 s2)
qed

lemma Cache_Flush_Some:
  assumes "flusher c = Some f" and "flusher_returns f"
  shows "\<exists>c'. Cache_Flush c = Inr c' \<and> flusher c' = Some f"
proof -
  from flushLoop_Some [OF assms(2), of "dirtyList c" "sink c"] obtain s' where
    "flushLoop (Some f) (dirtyList c) (sink c) = Inr s'"
    by (elim exE)
  with assms(1) show ?thesis by (simp add: Cache_Flush_def)
qed

lemma checkAndFlush_Some:
  assumes "flusher c = Some f" and "flusher_returns f"
  shows "\<exists>c'. checkAndFlush c = Inr c' \<and> flusher c' = Some f"
  using Cache_Flush_Some [OF assms] assms(1) by (simp add: checkAndFlush_def)

lemma Cache_Set_body_flusher:
  "Cache_Set_body c k v = Inr c' \<Longrightarrow> flusher c' = flusher c"
  by (auto simp: Cache_Set_body_def Let_def split: option.splits if_splits)

lemma Cache_Set_Some:
  assumes "flusher c = Some f" and "flusher_returns f"
  shows "\<exists>c'. Cache_Set c k v = Inr c' \<and> flusher c' = Some f"
proof -
  from Cache_Set_body_total [of c k v] obtain c1 where c1: "Cache_Set_body c k v = Inr c1"
    by (elim exE)
  with assms(1) have "flusher c1 = Some f" by (simp add: Cache_Set_body_flusher)
  from checkAndFlush_Some [OF this assms(2)] c1 show ?thesis by (simp add: Cache_Set_def)
qed

lemma Cache_step_Some:
  assumes "flusher c = Some f" and "flusher_returns f"
  shows "\<exists>c'. Cache_step c x = Inr c' \<and> flusher c' = Some f"
proof (cases x)
  case (OpSet k v)
  with Cache_Set_Some [OF assms] show ?thesis by simp
next
  case (OpGet k)
  with assms(1) show ?thesis by (simp add: Cache_Get_def Let_def split: option.split)
next
  case (OpDelete k)
  with assms(1) show ?thesis by (simp add: Cache_Delete_def Let_def split: option.split)
next
  case OpFlush
  with Cache_Flush_Some [OF assms] show ?thesis by simp
qed

lemma Cache_run_Some:
  assumes "flusher c = Some f" and "flusher_returns f"
  shows "\<exists>c'. Cache_run c ops = Inr c' \<and> flusher c' = Some f"
  using assms(1)
proof (induction ops arbitrary: c)
  case Nil
  then show ?case by simp
next
  case (Cons x xs)
  from Cache_step_Some [OF Cons.prems assms(2), of x] obtain c1 where
    c1: "Cache_step c x = Inr c1" "flusher c1 = Some f"
    by (elim exE conjE)
  from Cons.IH [OF c1(2)] c1(1) show ?case by simp
qed

lemma flusher_returns_memFlusher: "flusher_returns memFlusher"
  by (simp add: flusher_returns_def memFlusher_def)

lemma New_Some:
  "\<exists>c. New cap m p (Some f) s0 = Inr c \<and> flusher c = Some f \<and>
        SimpleCache.truncate c = NewSimple cap \<and> maxNrDirty c = m \<and> dirtyList c = [] \<and> sink c = s0"
  by (simp add: New_def NewSimple_def SimpleCache.truncate_def Let_def)

lemma Cache_Len_truncate: "Cache_Len c = SimpleCache_Len (SimpleCache.truncate c)"
  by (simp add: Cache_Len_def SimpleCache_Len_def SimpleCache.truncate_def)

lemma New_run_bounded:
  assumes "list_all is_Set_or_Get ops" and "flusher_returns f"
  shows "\<exists>c0 c. New cap m p (Some f) s0 = Inr c0 \<and> Cache_run c0 ops = Inr c \<and>
           Cache_Len c \<le> (if cap < 0 then 1024 else cap)"
proof -
  from New_Some [of cap m p f s0] obtain c0 where
    c0: "New cap m p (Some f) s0 = Inr c0" "flusher c0 = Some f"
      "SimpleCache.truncate c0 = NewSimple cap"
    by (elim exE conjE)
  from Cache_run_Some [OF c0(2) assms(2), of ops] obtain c where c: "Cache_run c0 ops = Inr c"
    by (elim exE conjE)
  from truncate_run [OF c] c0(3)
  have r: "SimpleCache_run (NewSimple cap) ops = Inr (SimpleCache.truncate c)"
    by simp
  from NewSimple_run_bounded [OF assms(1), of cap] obtain c' where
    c': "SimpleCache_run (NewSimple cap) ops = Inr c'"
      "SimpleCache_Len c' \<le> (if cap < 0 then 1024 else cap)"
    by (elim exE conjE)
  from r c' have "Cache_Len c \<le> (if cap < 0 then 1024 else cap)"
    by (simp add: Cache_Len_truncate)
  with c0(1) c show ?thesis by (intro exI conjI)
qed

section \<open>The recency list is ordered by age\<close>

lemma age_snoc: "age k (ops @ [x]) = (if op_key x = Some k then 0 else Suc (age k ops))"
  by (simp add: age_def)

lemma inserted_keys_append: "inserted_keys (xs @ ys) = inserted_keys xs @ inserted_keys ys"
  by (induction xs rule: inserted_keys.induct) simp_all

lemma stored_snoc_Set: "stored k (ops @ [OpSet k' v]) = (if k' = k then Some v else stored k ops)"
  by (simp add: stored_def)

lemma stored_snoc_Delete: "stored k (ops @ [OpDelete k']) = (if k' = k then None else stored k ops)"
  by (simp add: stored_def)

lemma stored_snoc_Get: "stored k (ops @ [OpGet k']) = stored k ops"
  by (simp add: stored_def)

lemma stored_snoc_Flush: "stored k (ops @ [OpFlush]) = stored k ops"
  by (simp add: stored_def)

lemma untouched_sorted:
  assumes "sorted_wrt (\<lambda>a b. age a ops < age b ops) ks" and "op_key x \<noteq> None \<longrightarrow> the (op_key x) \<notin> set ks"
  shows "sorted_wrt (\<lambda>a b. age a (ops @ [x]) < age b (ops @ [x])) ks"
proof (rule sorted_wrt_mono_rel [OF _ assms(1)])
  fix a b
  assume "a \<in> set ks" "b \<in> set ks" "age a ops < age b ops"
  with assms(2) show "age a (ops @ [x]) < age b (ops @ [x])"
    by (auto simp: age_snoc)
qed

lemma touched_sorted:
  assumes "sorted_wrt (\<lambda>a b. age a ops < age b ops) ks" and "op_key x = Some k" and "distinct ks"
  shows "sorted_wrt (\<lambda>a b. age a (ops @ [x]) < age b (ops @ [x])) (k # remove1 k ks)"
proof -
  from assms(3) have n: "k \<notin> set (remove1 k ks)" by simp
  from assms(1) have "sorted_wrt (\<lambda>a b. age a ops < age b ops) (remove1 k ks)"
    by (rule sorted_wrt_remove1_gen)
  from untouched_sorted [OF this, of x] n assms(2)
  have "sorted_wrt (\<lambda>a b. age a (ops @ [x]) < age b (ops @ [x])) (remove1 k ks)" by simp
  moreover have "age k (ops @ [x]) < age b (ops @ [x])" if "b \<in> set (remove1 k ks)" for b
    using that n assms(2) by (auto simp: age_snoc)
  ultimately show ?thesis by simp
qed

lemma pushed_sorted:
  assumes "sorted_wrt (\<lambda>a b. age a ops < age b ops) ks" and "op_key x = Some k" and "k \<notin> set ks"
  shows "sorted_wrt (\<lambda>a b. age a (ops @ [x]) < age b (ops @ [x])) (k # ks)"
proof -
  from untouched_sorted [OF assms(1), of x] assms(2,3)
  have "sorted_wrt (\<lambda>a b. age a (ops @ [x]) < age b (ops @ [x])) ks" by simp
  moreover have "age k (ops @ [x]) < age b (ops @ [x])" if "b \<in> set ks" for b
    using that assms(2,3) by (auto simp: age_snoc)
  ultimately show ?thesis by simp
qed

lemma set_move_front_keys: "k \<in> set ks \<Longrightarrow> set (k # remove1 k ks) = set ks"
proof -
  assume k: "k \<in> set ks"
  have "x \<in> set (k # remove1 k ks) \<longleftrightarrow> x \<in> set ks" for x
    using k by (cases "x = k") simp_all
  then show ?thesis by blast
qed

lemma lru_order:
  assumes "list_all is_Set_or_Get ops" and "0 \<le> N"
    and "card (set (inserted_keys ops)) \<le> nat N"
  shows "\<exists>c. SimpleCache_run (NewSimple N) ops = Inr c \<and> lru_inv c \<and> capacity c = N \<and>
           set (keys_of c) = set (inserted_keys ops) \<and>
           sorted_wrt (\<lambda>a b. age a ops < age b ops) (keys_of c)"
  using assms(1,3)
proof (induction ops rule: rev_induct)
  case Nil
  with assms(2) show ?case
    by (simp add: lru_inv_NewSimple keys_of_NewSimple capacity_NewSimple)
next
  case (snoc x xs)
  from snoc.prems(1) have x: "is_Set_or_Get x" and xs: "list_all is_Set_or_Get xs" by simp_all
  have "set (inserted_keys xs) \<subseteq> set (inserted_keys (xs @ [x]))"
    by (simp add: inserted_keys_append)
  then have "card (set (inserted_keys xs)) \<le> card (set (inserted_keys (xs @ [x])))"
    by (intro card_mono) simp_all
  with snoc.prems(2) have cxs: "card (set (inserted_keys xs)) \<le> nat N" by simp
  from snoc.IH [OF xs cxs] obtain c where
    c: "SimpleCache_run (NewSimple N) xs = Inr c" "lru_inv c" "capacity c = N"
      "set (keys_of c) = set (inserted_keys xs)"
      "sorted_wrt (\<lambda>a b. age a xs < age b xs) (keys_of c)"
    by (elim exE conjE)
  from c(2) have dk: "distinct (keys_of c)" by (simp add: lru_inv_def)
  have run: "SimpleCache_run (NewSimple N) (xs @ [x]) = SimpleCache_step c x"
    by (simp add: SimpleCache_run_append c(1) split: sum.split)
  show ?case
  proof (cases x)
    case (OpSet k v)
    from SimpleCache_Set_keys [OF c(2), of k v] obtain c' where
      c': "SimpleCache_Set c k v = Inr c'" "lru_inv c'" "capacity c' = capacity c"
        "keys_of c' =
             (if k \<in> set (keys_of c) then k # remove1 k (keys_of c)
              else if 0 \<le> capacity c \<and> capacity c < int (length (keys_of c)) + 1
                   then butlast (k # keys_of c) else k # keys_of c)"
      by (elim exE conjE)
    have ins: "set (inserted_keys (xs @ [x])) = insert k (set (inserted_keys xs))"
      by (simp add: inserted_keys_append OpSet)
    have "set (keys_of c') = set (inserted_keys (xs @ [x])) \<and>
          sorted_wrt (\<lambda>a b. age a (xs @ [x]) < age b (xs @ [x])) (keys_of c')"
    proof (cases "k \<in> set (keys_of c)")
      case True
      then have "keys_of c' = k # remove1 k (keys_of c)" by (simp add: c'(4))
      with touched_sorted [OF c(5) _ dk, of x k] set_move_front_keys [OF True] True c(4) ins
      show ?thesis by (auto simp: OpSet)
    next
      case False
      with c(4) ins have "card (set (inserted_keys (xs @ [x]))) = Suc (card (set (keys_of c)))"
        by simp
      with snoc.prems(2) dk have "int (length (keys_of c)) + 1 \<le> N"
        by (simp add: distinct_card)
      with False c(3) have "keys_of c' = k # keys_of c" by (simp add: c'(4))
      with pushed_sorted [OF c(5) _ False, of x] c(4) ins
      show ?thesis by (simp add: OpSet)
    qed
    with c' c(3) run OpSet show ?thesis by simp
  next
    case (OpGet k)
    let ?c' = "snd (SimpleCache_Get c k)"
    from SimpleCache_Get_keys [OF c(2), of k] have
      g: "lru_inv ?c'" "capacity ?c' = capacity c"
        "keys_of ?c' = (if k \<in> set (keys_of c) then k # remove1 k (keys_of c) else keys_of c)"
      by simp_all
    have ins: "set (inserted_keys (xs @ [x])) = set (inserted_keys xs)"
      by (simp add: inserted_keys_append OpGet)
    have "set (keys_of ?c') = set (inserted_keys (xs @ [x])) \<and>
          sorted_wrt (\<lambda>a b. age a (xs @ [x]) < age b (xs @ [x])) (keys_of ?c')"
    proof (cases "k \<in> set (keys_of c)")
      case True
      then have "keys_of ?c' = k # remove1 k (keys_of c)" by (simp add: g(3))
      with touched_sorted [OF c(5) _ dk, of x k] set_move_front_keys [OF True] c(4) ins
      show ?thesis by (simp add: OpGet)
    next
      case False
      then have "keys_of ?c' = keys_of c" by (simp add: g(3))
      with untouched_sorted [OF c(5), of x] False c(4) ins
      show ?thesis by (simp add: OpGet)
    qed
    with g c(3) run OpGet show ?thesis by simp
  next
    case (OpDelete k)
    with x show ?thesis by simp
  next
    case OpFlush
    with x show ?thesis by simp
  qed
qed

section \<open>The index holds the value last written under each key\<close>

lemma val_inv_NewSimple: "val_inv [] (NewSimple cap)"
  by (simp add: val_inv_def NewSimple_def Let_def)

lemma val_inv_Get: "val_inv ops c \<Longrightarrow> val_inv (ops @ [OpGet k]) (snd (SimpleCache_Get c k))"
  by (auto simp: val_inv_def SimpleCache_Get_def Let_def stored_snoc_Get split: option.splits)

lemma val_inv_Delete:
  "val_inv ops c \<Longrightarrow> val_inv (ops @ [OpDelete k]) (snd (SimpleCache_Delete c k))"
  by (auto simp: val_inv_def SimpleCache_Delete_def Let_def stored_snoc_Delete split: option.splits)

lemma val_inv_Set:
  assumes "val_inv ops c" and "SimpleCache_Set c k v = Inr c'"
  shows "val_inv (ops @ [OpSet k v]) c'"
proof (cases "data c k")
  case (Some e0)
  with assms(2) have c': "c' = c\<lparr>elems := (elems c)(e0 := (elems c e0)\<lparr>item_value := v\<rparr>),
                 list := list_MoveToFront e0 (list c)\<rparr>"
    by (simp add: SimpleCache_Set_def)
  from assms(1) Some have k0: "item_key (elems c e0) = k" by (simp add: val_inv_def)
  show ?thesis
    unfolding val_inv_def
  proof (intro allI impI)
    fix k2 e
    assume "data c' k2 = Some e"
    then have d: "data c k2 = Some e" by (simp add: c')
    with assms(1) have i: "e < nextElem c" "item_key (elems c e) = k2"
      "stored k2 ops = Some (item_value (elems c e))"
      by (simp_all add: val_inv_def)
    show "e < nextElem c' \<and> item_key (elems c' e) = k2 \<and>
          stored k2 (ops @ [OpSet k v]) = Some (item_value (elems c' e))"
    proof (cases "e = e0")
      case True
      with i(2) k0 have "k2 = k" by simp
      with True i show ?thesis by (simp add: c' stored_snoc_Set)
    next
      case False
      with d Some have "k2 \<noteq> k" by auto
      with False i show ?thesis by (simp add: c' stored_snoc_Set)
    qed
  qed
next
  case None
  define n where "n = nextElem c"
  have sub: "data c' k2 = Some e \<Longrightarrow> (k2 = k \<and> e = n) \<or> (k2 \<noteq> k \<and> data c k2 = Some e)" for k2 e
    using assms(2) None
    by (auto simp: SimpleCache_Set_def Let_def n_def split: if_splits option.splits)
  have el: "elems c' = (elems c)(n := \<lparr>item_key = k, item_value = v\<rparr>)"
    and nx: "nextElem c' = Suc n"
    using assms(2) None
    by (auto simp: SimpleCache_Set_def Let_def n_def split: if_splits option.splits)
  show ?thesis
    unfolding val_inv_def
  proof (intro allI impI)
    fix k2 e
    assume "data c' k2 = Some e"
    from sub [OF this] show "e < nextElem c' \<and> item_key (elems c' e) = k2 \<and>
          stored k2 (ops @ [OpSet k v]) = Some (item_value (elems c' e))"
    proof
      assume "k2 = k \<and> e = n"
      then show ?thesis by (simp add: el nx stored_snoc_Set)
    next
      assume a: "k2 \<noteq> k \<and> data c k2 = Some e"
      then have d: "data c k2 = Some e" by simp
      with assms(1) have i: "e < nextElem c" "item_key (elems c e) = k2"
        "stored k2 ops = Some (item_value (elems c e))"
        by (simp_all add: val_inv_def)
      with a show ?thesis by (auto simp: el nx stored_snoc_Set n_def)
    qed
  qed
qed

lemma val_inv_step:
  assumes "val_inv ops c" and "SimpleCache_step c x = Inr c'"
  shows "val_inv (ops @ [x]) c'"
proof (cases x)
  case (OpSet k v)
  with assms val_inv_Set [of ops c k v c'] show ?thesis by simp
next
  case (OpGet k)
  with assms val_inv_Get [of ops c k] show ?thesis by auto
next
  case (OpDelete k)
  with assms val_inv_Delete [of ops c k] show ?thesis by auto
next
  case OpFlush
  with assms show ?thesis
    by (auto simp: val_inv_def SimpleCache_Flush_def stored_snoc_Flush)
qed

lemma val_inv_run:
  "SimpleCache_run (NewSimple cap) ops = Inr c \<Longrightarrow> val_inv ops c"
proof (induction ops arbitrary: c rule: rev_induct)
  case Nil
  then show ?case using val_inv_NewSimple [of cap] by auto
next
  case (snoc x xs)
  from snoc.prems obtain c1 where
    c1: "SimpleCache_run (NewSimple cap) xs = Inr c1" "SimpleCache_step c1 x = Inr c"
    by (auto simp: SimpleCache_run_append split: sum.splits)
  from val_inv_step [OF snoc.IH [OF c1(1)] c1(2)] show ?case .
qed

section \<open>A full cache evicts the least recently touched key\<close>

lemma SimpleCache_Get_value:
  "fst (SimpleCache_Get c k) = (case data c k of None \<Rightarrow> GoNil | Some e \<Rightarrow> item_value (elems c e))"
  by (simp add: SimpleCache_Get_def Let_def split: option.split)

lemma sorted_wrt_last_greatest:
  assumes "sorted_wrt (\<lambda>a b. f a < f b) ks" and "ks \<noteq> []" and "k \<in> set (butlast ks)"
  shows "(f k :: nat) < f (last ks)"
proof -
  from assms(2) have "ks = butlast ks @ [last ks]" by simp
  with assms(1) have "sorted_wrt (\<lambda>a b. f a < f b) (butlast ks @ [last ks])" by simp
  with assms(3) show ?thesis by (simp add: sorted_wrt_append)
qed

lemma lru_key_last:
  assumes "sorted_wrt (\<lambda>a b. age a ops < age b ops) ks" and "ks \<noteq> []" and "distinct ks"
    and "set ks = set (inserted_keys ops)"
  shows "lru_key ops k \<longleftrightarrow> k = last ks"
proof
  assume l: "lru_key ops k"
  show "k = last ks"
  proof (rule ccontr)
    assume n: "k \<noteq> last ks"
    from l assms(4) have "k \<in> set ks" by (simp add: lru_key_def)
    with n assms(2,3) have "k \<in> set (butlast ks)" by (simp add: set_butlast_distinct)
    from sorted_wrt_last_greatest [OF assms(1,2) this] have "age k ops < age (last ks) ops" .
    moreover from l assms(2,4) have "age (last ks) ops \<le> age k ops"
      by (auto simp: lru_key_def)
    ultimately show False by simp
  qed
next
  assume k: "k = last ks"
  have "age k2 ops \<le> age (last ks) ops" if "k2 \<in> set ks" for k2
  proof (cases "k2 = last ks")
    case True
    then show ?thesis by simp
  next
    case False
    with that assms(2,3) have "k2 \<in> set (butlast ks)" by (simp add: set_butlast_distinct)
    from sorted_wrt_last_greatest [OF assms(1,2) this] show ?thesis by simp
  qed
  with k assms(2,4) show "lru_key ops k" by (auto simp: lru_key_def)
qed

lemma lru_evicts_simple:
  assumes "list_all is_Set_or_Get ops" and "0 < N"
    and "card (set (inserted_keys ops)) = nat N" and "k' \<notin> set (inserted_keys ops)"
  shows "(\<exists>!k. lru_key ops k) \<and>
         (\<exists>c. SimpleCache_run (NewSimple N) (ops @ [OpSet k' v']) = Inr c \<and>
              lru_outcome ops k' v' (\<lambda>k. fst (SimpleCache_Get c k)) (\<lambda>k. data c k \<noteq> None))"
proof -
  from assms(2,3) have N0: "0 \<le> N" and cle: "card (set (inserted_keys ops)) \<le> nat N" by simp_all
  from lru_order [OF assms(1) N0 cle] obtain c where
    c: "SimpleCache_run (NewSimple N) ops = Inr c" "lru_inv c" "capacity c = N"
      "set (keys_of c) = set (inserted_keys ops)"
      "sorted_wrt (\<lambda>a b. age a ops < age b ops) (keys_of c)"
    by (elim exE conjE)
  let ?ks = "keys_of c"
  from c(2) have dk: "distinct ?ks" by (simp add: lru_inv_def)
  from dk c(4) assms(3) have len: "length ?ks = nat N" by (simp add: distinct_card [symmetric])
  with assms(2) have ne: "?ks \<noteq> []" by auto
  from assms(4) c(4) have k'n: "k' \<notin> set ?ks" by simp
  note lk = lru_key_last [OF c(5) ne dk c(4)]
  from SimpleCache_Set_keys [OF c(2), of k' v'] obtain c' where
    c': "SimpleCache_Set c k' v' = Inr c'" "lru_inv c'"
      "keys_of c' =
             (if k' \<in> set ?ks then k' # remove1 k' ?ks
              else if 0 \<le> capacity c \<and> capacity c < int (length ?ks) + 1
                   then butlast (k' # ?ks) else k' # ?ks)"
    by (elim exE conjE)
  from c'(3) k'n c(3) assms(2) len ne have ks': "keys_of c' = k' # butlast ?ks" by simp
  have run: "SimpleCache_run (NewSimple N) (ops @ [OpSet k' v']) = Inr c'"
    by (simp add: SimpleCache_run_append c(1) c'(1))
  from val_inv_run [OF run] have vi: "val_inv (ops @ [OpSet k' v']) c'" .
  have pres: "data c' k \<noteq> None \<longleftrightarrow> k = k' \<or> k \<in> set (butlast ?ks)" for k
    using lru_inv_present [OF c'(2), of k] by (simp add: ks')
  have val: "Some (fst (SimpleCache_Get c' k)) = stored k (ops @ [OpSet k' v'])"
    if "data c' k \<noteq> None" for k
  proof -
    from that obtain e where e: "data c' k = Some e" by auto
    with vi have "stored k (ops @ [OpSet k' v']) = Some (item_value (elems c' e))"
      by (simp add: val_inv_def)
    with e show ?thesis by (simp add: SimpleCache_Get_value)
  qed
  have gone: "fst (SimpleCache_Get c' k) = GoNil" if "data c' k = None" for k
    using that by (simp add: SimpleCache_Get_value)
  have "lru_outcome ops k' v' (\<lambda>k. fst (SimpleCache_Get c' k)) (\<lambda>k. data c' k \<noteq> None)"
    unfolding lru_outcome_def
  proof (intro conjI ballI)
    fix k
    assume "k \<in> set (inserted_keys ops)"
    with c(4) have kin: "k \<in> set ?ks" by simp
    with k'n have kk': "k \<noteq> k'" by auto
    show "if lru_key ops k then \<not> data c' k \<noteq> None \<and> fst (SimpleCache_Get c' k) = GoNil
          else data c' k \<noteq> None \<and> Some (fst (SimpleCache_Get c' k)) = stored k ops"
    proof (cases "k = last ?ks")
      case True
      with last_notin_butlast [OF dk ne] kk' pres [of k] have "data c' k = None" by simp
      with gone [OF this] True lk [of k] show ?thesis by simp
    next
      case False
      with kin dk ne have "k \<in> set (butlast ?ks)" by (simp add: set_butlast_distinct)
      with pres [of k] have p: "data c' k \<noteq> None" by simp
      from val [OF p] kk' have "Some (fst (SimpleCache_Get c' k)) = stored k ops"
        by (simp add: stored_snoc_Set)
      with p False lk [of k] show ?thesis by simp
    qed
  next
    show "data c' k' \<noteq> None" using pres [of k'] by simp
  next
    have p: "data c' k' \<noteq> None" using pres [of k'] by simp
    from val [OF p] show "fst (SimpleCache_Get c' k') = v'" by (simp add: stored_snoc_Set)
  qed
  moreover have "\<exists>!k. lru_key ops k" using lk by auto
  ultimately show ?thesis using run by blast
qed

lemma lru_evicts_Cache:
  assumes "list_all is_Set_or_Get ops" and "0 < N"
    and "card (set (inserted_keys ops)) = nat N" and "k' \<notin> set (inserted_keys ops)"
    and "flusher_returns f"
  shows "\<exists>c0 c. New N m p (Some f) s0 = Inr c0 \<and>
              Cache_run c0 (ops @ [OpSet k' v']) = Inr c \<and>
              lru_outcome ops k' v' (\<lambda>k. fst (Cache_Get c k)) (\<lambda>k. data c k \<noteq> None)"
proof -
  from New_Some [of N m p f s0] obtain c0 where
    c0: "New N m p (Some f) s0 = Inr c0" "flusher c0 = Some f"
      "SimpleCache.truncate c0 = NewSimple N"
    by (elim exE conjE)
  from Cache_run_Some [OF c0(2) assms(5), of "ops @ [OpSet k' v']"] obtain c where
    c: "Cache_run c0 (ops @ [OpSet k' v']) = Inr c"
    by (elim exE conjE)
  from truncate_run [OF c] c0(3)
  have r: "SimpleCache_run (NewSimple N) (ops @ [OpSet k' v']) = Inr (SimpleCache.truncate c)"
    by simp
  from lru_evicts_simple [OF assms(1-4), of v'] obtain c' where
    c': "SimpleCache_run (NewSimple N) (ops @ [OpSet k' v']) = Inr c'"
      "lru_outcome ops k' v' (\<lambda>k. fst (SimpleCache_Get c' k)) (\<lambda>k. data c' k \<noteq> None)"
    by (elim exE conjE)
  from r c'(1) have eq: "c' = SimpleCache.truncate c" by simp
  have g: "fst (SimpleCache_Get (SimpleCache.truncate c) k) = fst (Cache_Get c k)" for k
    by (simp add: truncate_Get)
  have d: "data (SimpleCache.truncate c) = data c"
    by (simp add: SimpleCache.truncate_def)
  from c'(2) have "lru_outcome ops k' v' (\<lambda>k. fst (Cache_Get c k)) (\<lambda>k. data c k \<noteq> None)"
    by (simp add: eq g d)
  with c0(1) c show ?thesis by (intro exI conjI)
qed

section \<open>Sequences of Set calls\<close>

lemma all_Sets: "list_all is_Set_or_Get (map (\<lambda>(k, v). OpSet k v) kvs)"
  by (induction kvs) auto

lemma inserted_keys_Sets: "inserted_keys (map (\<lambda>(k, v). OpSet k v) kvs) = map fst kvs"
  by (induction kvs) auto

lemma SimpleCache_step_total: "\<exists>c'. SimpleCache_step c x = Inr c'"
  using SimpleCache_Set_total by (cases x) simp_all

lemma SimpleCache_run_total: "\<exists>c'. SimpleCache_run c ops = Inr c'"
proof (induction ops arbitrary: c)
  case Nil
  show ?case by simp
next
  case (Cons x xs)
  from SimpleCache_step_total [of c x] obtain c1 where "SimpleCache_step c x = Inr c1"
    by (elim exE)
  with Cons.IH [of c1] show ?case by simp
qed

lemma some_key_absent:
  assumes "distinct ks" and "finite (dom d)" and "card (dom d) < length ks"
  shows "\<exists>k \<in> set ks. d k = None"
proof (rule ccontr)
  assume "\<not> (\<exists>k \<in> set ks. d k = None)"
  then have "set ks \<subseteq> dom d" by auto
  with assms(2) have "card (set ks) \<le> card (dom d)" by (intro card_mono)
  with assms(1,3) show False by (simp add: distinct_card)
qed

lemma distinct_replicate_keys: "distinct (map (\<lambda>i. replicate i x) [0..<n])"
proof -
  have "inj_on (\<lambda>i. replicate i x) (set [0..<n])"
  proof (rule inj_onI)
    fix i j
    assume "replicate i x = replicate j x"
    then have "length (replicate i x) = length (replicate j x)" by (rule arg_cong)
    then show "i = j" by simp
  qed
  then show ?thesis by (simp only: distinct_map distinct_upt)
qed

section \<open>What a flush sends to the flusher\<close>

lemma replay_append:
  "replay f (xs @ ys) s = (case replay f xs s of Inl p \<Rightarrow> Inl p | Inr s' \<Rightarrow> replay f ys s')"
  by (induction f xs s rule: replay.induct) (simp_all split: sum.split)

lemma replay_returns: "flusher_returns f \<Longrightarrow> \<exists>s'. replay f cs s = Inr s'"
proof (induction f cs s rule: replay.induct)
  case (1 f s)
  show ?case by simp
next
  case (2 f k v cs s)
  from 2(2) obtain s1 where s1: "Add f k v s = Inr s1"
    unfolding flusher_returns_def by blast
  from 2(1) [OF s1 2(2)] show ?case by (simp add: s1)
next
  case (3 f k cs s)
  from 3(2) obtain s1 where s1: "Remove f k s = Inr s1"
    unfolding flusher_returns_def by blast
  from 3(1) [OF s1 3(2)] show ?case by (simp add: s1)
qed

lemma queue_calls_append: "queue_calls (xs @ ys) = queue_calls xs @ queue_calls ys"
  by (simp add: queue_calls_def)

lemma queue_calls_simps:
  "queue_calls [] = []"
  "queue_calls [upsertRecord k v] = [CallAdd k v]"
  "queue_calls [removeRecord k] = [CallRemove k]"
  by (simp_all add: queue_calls_def record_calls_def upsertRecord_def removeRecord_def)

lemma queue_calls_Cons: "queue_calls (de # es) = record_calls de @ queue_calls es"
  by (simp add: queue_calls_def)

lemma flushLoop_replay: "flushLoop (Some f) es s = replay f (queue_calls es) s"
proof (induction es arbitrary: s)
  case Nil
  show ?case by (simp add: queue_calls_simps)
next
  case (Cons de es)
  show ?case
    by (simp add: queue_calls_Cons record_calls_def Cons.IH split: sum.split)
qed

lemma Cache_Flush_replay:
  "flusher c = Some f \<Longrightarrow>
   Cache_Flush c =
     (case replay f (queue_calls (dirtyList c)) (sink c) of
        Inl p \<Rightarrow> Inl p
      | Inr s \<Rightarrow> Inr (c\<lparr>sink := s, dirtyList := []\<rparr>))"
  by (simp add: Cache_Flush_def flushLoop_replay)

lemma Cache_Set_body_queue:
  "Cache_Set_body c k v = Inr c' \<Longrightarrow>
   dirtyList c' = dirtyList c @ [upsertRecord k v] \<and> sink c' = sink c \<and>
   flusher c' = flusher c \<and> maxNrDirty c' = maxNrDirty c"
  by (auto simp: Cache_Set_body_def upsertRecord_def Let_def split: option.splits if_splits)

lemma Cache_Set_effect:
  assumes "flusher c = Some f"
  shows "if 0 \<le> maxNrDirty c \<and> maxNrDirty c \<le> int (length (dirtyList c)) + 1
         then (case replay f (queue_calls (dirtyList c @ [upsertRecord k v])) (sink c) of
                 Inl p \<Rightarrow> Cache_Set c k v = Inl p
               | Inr s \<Rightarrow>
                   (\<exists>c'. Cache_Set c k v = Inr c' \<and> flusher c' = Some f \<and>
                      maxNrDirty c' = maxNrDirty c \<and> dirtyList c' = [] \<and> sink c' = s))
         else (\<exists>c'. Cache_Set c k v = Inr c' \<and> flusher c' = Some f \<and>
                 maxNrDirty c' = maxNrDirty c \<and>
                 dirtyList c' = dirtyList c @ [upsertRecord k v] \<and> sink c' = sink c)"
proof -
  from Cache_Set_body_total [of c k v] obtain c1 where c1: "Cache_Set_body c k v = Inr c1"
    by (elim exE)
  from Cache_Set_body_queue [OF c1] assms have
    q: "dirtyList c1 = dirtyList c @ [upsertRecord k v]" "sink c1 = sink c"
      "flusher c1 = Some f" "maxNrDirty c1 = maxNrDirty c"
    by simp_all
  have s: "Cache_Set c k v = checkAndFlush c1" by (simp add: Cache_Set_def c1)
  show ?thesis
  proof (cases "0 \<le> maxNrDirty c \<and> maxNrDirty c \<le> int (length (dirtyList c)) + 1")
    case True
    with q have cf: "checkAndFlush c1 = Cache_Flush c1" by (simp add: checkAndFlush_def)
    show ?thesis
    proof (cases "replay f (queue_calls (dirtyList c @ [upsertRecord k v])) (sink c)")
      case (Inl p)
      with Cache_Flush_replay [OF q(3)] q(1,2) have "Cache_Flush c1 = Inl p" by simp
      with s cf True Inl show ?thesis by simp
    next
      case (Inr s')
      with Cache_Flush_replay [OF q(3)] q(1,2)
      have "Cache_Flush c1 = Inr (c1\<lparr>sink := s', dirtyList := []\<rparr>)" by simp
      with s cf True Inr q(3,4) show ?thesis by simp
    qed
  next
    case False
    with q have "checkAndFlush c1 = Inr c1" by (auto simp: checkAndFlush_def)
    with s q have "\<exists>c'. Cache_Set c k v = Inr c' \<and> flusher c' = Some f \<and>
                 maxNrDirty c' = maxNrDirty c \<and>
                 dirtyList c' = dirtyList c @ [upsertRecord k v] \<and> sink c' = sink c"
      by simp
    with False show ?thesis by (simp only: if_False)
  qed
qed

lemma Cache_Delete_effect:
  "dirtyList (snd (Cache_Delete c k)) = dirtyList c @ [removeRecord k] \<and>
   sink (snd (Cache_Delete c k)) = sink c \<and> flusher (snd (Cache_Delete c k)) = flusher c \<and>
   maxNrDirty (snd (Cache_Delete c k)) = maxNrDirty c"
  by (simp add: Cache_Delete_def removeRecord_def Let_def split: option.split)

lemma Cache_Get_effect:
  "dirtyList (snd (Cache_Get c k)) = dirtyList c \<and>
   sink (snd (Cache_Get c k)) = sink c \<and> flusher (snd (Cache_Get c k)) = flusher c"
  by (simp add: Cache_Get_def Let_def split: option.split)

lemma Cache_step_pending:
  assumes "flusher c = Some f"
  shows "case Cache_step c x of
           Inl p \<Rightarrow> replay f (queue_calls (dirtyList c) @ op_calls x) (sink c) = Inl p
         | Inr c' \<Rightarrow>
             flusher c' = Some f \<and>
             replay f (queue_calls (dirtyList c')) (sink c') =
               replay f (queue_calls (dirtyList c) @ op_calls x) (sink c)"
proof (cases x)
  case (OpSet k v)
  have q: "queue_calls (dirtyList c @ [upsertRecord k v]) = queue_calls (dirtyList c) @ [CallAdd k v]"
    by (simp add: queue_calls_append queue_calls_simps)
  show ?thesis
  proof (cases "0 \<le> maxNrDirty c \<and> maxNrDirty c \<le> int (length (dirtyList c)) + 1")
    case True
    note t = True
    show ?thesis
    proof (cases "replay f (queue_calls (dirtyList c) @ [CallAdd k v]) (sink c)")
      case (Inl p)
      with Cache_Set_effect [OF assms, of k v] t q have "Cache_Set c k v = Inl p" by simp
      with Inl OpSet show ?thesis by simp
    next
      case (Inr s')
      with Cache_Set_effect [OF assms, of k v] t q obtain c' where
        "Cache_Set c k v = Inr c'" "flusher c' = Some f" "dirtyList c' = []" "sink c' = s'"
        by auto
      with Inr OpSet show ?thesis by (simp add: queue_calls_simps)
    qed
  next
    case False
    with Cache_Set_effect [OF assms, of k v] obtain c' where
      "Cache_Set c k v = Inr c'" "flusher c' = Some f"
      "dirtyList c' = dirtyList c @ [upsertRecord k v]" "sink c' = sink c"
      by auto
    with q OpSet show ?thesis by simp
  qed
next
  case (OpGet k)
  with assms Cache_Get_effect [of c k] show ?thesis by simp
next
  case (OpDelete k)
  with assms Cache_Delete_effect [of c k] show ?thesis
    by (simp add: queue_calls_append queue_calls_simps)
next
  case OpFlush
  with Cache_Flush_replay [OF assms] assms show ?thesis
    by (simp add: queue_calls_simps split: sum.split)
qed

lemma Cache_run_pending:
  assumes "flusher c = Some f"
  shows "case Cache_run c ops of
           Inl p \<Rightarrow>
             replay f (queue_calls (dirtyList c) @ concat (map op_calls ops)) (sink c) = Inl p
         | Inr c' \<Rightarrow>
             flusher c' = Some f \<and>
             replay f (queue_calls (dirtyList c')) (sink c') =
               replay f (queue_calls (dirtyList c) @ concat (map op_calls ops)) (sink c)"
  using assms
proof (induction ops arbitrary: c)
  case Nil
  then show ?case by simp
next
  case (Cons x xs)
  let ?R = "replay f (queue_calls (dirtyList c) @ concat (map op_calls (x # xs))) (sink c)"
  have R: "?R = (case replay f (queue_calls (dirtyList c) @ op_calls x) (sink c) of
                   Inl p \<Rightarrow> Inl p | Inr s' \<Rightarrow> replay f (concat (map op_calls xs)) s')"
    using replay_append [of f "queue_calls (dirtyList c) @ op_calls x" "concat (map op_calls xs)" "sink c"]
    by simp
  show ?case
  proof (cases "Cache_step c x")
    case (Inl p)
    with Cache_step_pending [OF Cons.prems, of x]
    have "replay f (queue_calls (dirtyList c) @ op_calls x) (sink c) = Inl p" by simp
    with R Inl show ?thesis by simp
  next
    case (Inr c1)
    with Cache_step_pending [OF Cons.prems, of x]
    have c1: "flusher c1 = Some f"
      "replay f (queue_calls (dirtyList c1)) (sink c1) =
         replay f (queue_calls (dirtyList c) @ op_calls x) (sink c)"
      by simp_all
    have R1: "replay f (queue_calls (dirtyList c1) @ concat (map op_calls xs)) (sink c1) = ?R"
      using replay_append [of f "queue_calls (dirtyList c1)" "concat (map op_calls xs)" "sink c1"]
      by (simp only: R c1(2))
    have "Cache_run c (x # xs) = Cache_run c1 xs" by (simp add: Inr)
    with Cons.IH [OF c1(1)] show ?thesis by (simp only: R1)
  qed
qed

lemma Cache_run_then_Flush:
  assumes "flusher c = Some f"
  shows "(case Cache_run c (ops @ [OpFlush]) of
            Inl p \<Rightarrow> Inl p
          | Inr c' \<Rightarrow> Inr (dirtyList c', sink c')) =
         (case replay f (queue_calls (dirtyList c) @ concat (map op_calls ops)) (sink c) of
            Inl p \<Rightarrow> Inl p
          | Inr s \<Rightarrow> Inr ([], s))"
proof (cases "Cache_run c ops")
  case (Inl p)
  with Cache_run_pending [OF assms, of ops]
  have "replay f (queue_calls (dirtyList c) @ concat (map op_calls ops)) (sink c) = Inl p"
    by simp
  with Inl show ?thesis by (simp add: Cache_run_append)
next
  case (Inr c1)
  with Cache_run_pending [OF assms, of ops]
  have c1: "flusher c1 = Some f"
    "replay f (queue_calls (dirtyList c1)) (sink c1) =
       replay f (queue_calls (dirtyList c) @ concat (map op_calls ops)) (sink c)"
    by simp_all
  have "Cache_run c (ops @ [OpFlush]) = Cache_Flush c1"
    by (simp add: Cache_run_append Inr split: sum.split)
  with Cache_Flush_replay [OF c1(1)] c1(2) show ?thesis by (simp split: sum.split)
qed

lemma Cache_run_then_Flush_returns:
  assumes "flusher c = Some f" and "flusher_returns f"
  shows "\<exists>c'. Cache_run c (ops @ [OpFlush]) = Inr c' \<and> dirtyList c' = [] \<and>
           replay f (queue_calls (dirtyList c) @ concat (map op_calls ops)) (sink c) = Inr (sink c')"
proof -
  from Cache_run_Some [OF assms, of "ops @ [OpFlush]"] obtain c' where
    c': "Cache_run c (ops @ [OpFlush]) = Inr c'"
    by (elim exE conjE)
  from Cache_run_then_Flush [OF assms(1), of ops] c'
  have "dirtyList c' = [] \<and>
        replay f (queue_calls (dirtyList c) @ concat (map op_calls ops)) (sink c) = Inr (sink c')"
    by (simp split: sum.splits)
  with c' show ?thesis by (intro exI conjI) simp_all
qed

section \<open>What Get and Delete return\<close>

lemma SimpleCache_Delete_value:
  "fst (SimpleCache_Delete c k) = (case data c k of None \<Rightarrow> GoNil | Some e \<Rightarrow> item_value (elems c e))"
  by (simp add: SimpleCache_Delete_def Let_def split: option.split)

lemma val_inv_results:
  assumes "val_inv ops c"
  shows "(data c k = None \<longrightarrow>
            fst (SimpleCache_Get c k) = GoNil \<and> fst (SimpleCache_Delete c k) = GoNil) \<and>
         (data c k \<noteq> None \<longrightarrow>
            Some (fst (SimpleCache_Get c k)) = stored k ops \<and>
            Some (fst (SimpleCache_Delete c k)) = stored k ops) \<and>
         (fst (SimpleCache_Get c k) \<noteq> GoNil \<longrightarrow> stored k ops = Some (fst (SimpleCache_Get c k))) \<and>
         (fst (SimpleCache_Delete c k) \<noteq> GoNil \<longrightarrow>
            stored k ops = Some (fst (SimpleCache_Delete c k)))"
proof (cases "data c k")
  case None
  then show ?thesis by (simp add: SimpleCache_Get_value SimpleCache_Delete_value)
next
  case (Some e)
  with assms have "stored k ops = Some (item_value (elems c e))" by (simp add: val_inv_def)
  with Some show ?thesis by (simp add: SimpleCache_Get_value SimpleCache_Delete_value)
qed

section \<open>Set and Get keep the structural invariant\<close>

lemma lru_inv_index_list_inv: "lru_inv c \<Longrightarrow> index_list_inv c"
proof -
  assume i: "lru_inv c"
  have "card (dom (data c)) = length (list c)"
    using lru_inv_card [OF i] by (simp add: keys_of_def)
  moreover have "\<forall>k e. data c k = Some e \<longrightarrow> e \<in> set (list c) \<and> item_key (elems c e) = k"
    using lru_inv_lookup [OF i] by blast
  moreover have "distinct (map (\<lambda>e. item_key (elems c e)) (list c))"
    using i by (simp add: lru_inv_def keys_of_def)
  ultimately show ?thesis by (simp add: index_list_inv_def)
qed

lemma index_list_inv_truncate: "index_list_inv (SimpleCache.truncate d) = index_list_inv d"
  by (simp add: index_list_inv_def SimpleCache.truncate_def)

lemma index_list_inv_Set_Get:
  assumes "list_all is_Set_or_Get ops" and "flusher_returns f"
  shows "(\<exists>c. SimpleCache_run (NewSimple cap) ops = Inr c \<and> index_list_inv c) \<and>
         (\<exists>d0 d. New cap m p (Some f) s0 = Inr d0 \<and> Cache_run d0 ops = Inr d \<and>
              index_list_inv d)"
proof -
  let ?c0 = "NewSimple cap :: 'a SimpleCache"
  have "0 \<le> capacity ?c0" "int (length (keys_of ?c0)) \<le> capacity ?c0"
    by (simp_all add: capacity_NewSimple keys_of_NewSimple)
  from SimpleCache_run_bounded [OF lru_inv_NewSimple this assms(1)] obtain c where
    c: "SimpleCache_run ?c0 ops = Inr c" "lru_inv c"
    by (elim exE conjE)
  from c(2) have ic: "index_list_inv c" by (rule lru_inv_index_list_inv)
  from New_Some [of cap m p f s0] obtain d0 where
    d0: "New cap m p (Some f) s0 = Inr d0" "flusher d0 = Some f"
      "SimpleCache.truncate d0 = NewSimple cap"
    by (elim exE conjE)
  from Cache_run_Some [OF d0(2) assms(2), of ops] obtain d where d: "Cache_run d0 ops = Inr d"
    by (elim exE conjE)
  from truncate_run [OF d] d0(3) c(1) have "c = SimpleCache.truncate d" by simp
  with ic have "index_list_inv d" by (simp add: index_list_inv_truncate)
  with c(1) ic d0(1) d show ?thesis by (intro conjI exI)
qed

section \<open>Reads and the dirty queue\<close>

text \<open>
  C10: \<^verbatim>\<open>Get\<close> on the write-back cache leaves the dirty queue exactly as it was, and does not
  touch the external store, its flusher or the flush threshold, whether or not the key is
  present.
\<close>

theorem Cache_Get_frame:
  "dirtyList (snd (Cache_Get c key)) = dirtyList c \<and>
   sink (snd (Cache_Get c key)) = sink c \<and>
   flusher (snd (Cache_Get c key)) = flusher c \<and>
   maxNrDirty (snd (Cache_Get c key)) = maxNrDirty c"
  by (simp add: Cache_Get_def Let_def split: option.split)

text \<open>
  C8: \<^verbatim>\<open>Delete\<close> on the write-back cache appends exactly one record, with \<open>removed\<close> set,
  to the dirty queue in every state, also when the key is absent; it returns the value
  held under the key when the key is in the index and \<^verbatim>\<open>nil\<close> when it is not, and the
  key is out of the index afterwards.
\<close>

theorem Cache_Delete_record:
  "dirtyList (snd (Cache_Delete c key)) =
     dirtyList c @ [\<lparr>modified = False, removed = True, de_key = key, de_value = GoNil\<rparr>] \<and>
   fst (Cache_Delete c key) =
     (case data c key of None \<Rightarrow> GoNil | Some e \<Rightarrow> item_value (elems c e)) \<and>
   fst (Cache_Delete c key) = fst (Cache_Get c key) \<and>
   data (snd (Cache_Delete c key)) key = None \<and>
   sink (snd (Cache_Delete c key)) = sink c"
  by (simp add: Cache_Delete_def Cache_Get_def Let_def split: option.split)

section \<open>Capacity\<close>

text \<open>
  C6: for a cache built with capacity \<open>cap \<ge> 0\<close>, plain or write-back, and a sequence of
  \<^verbatim>\<open>Set\<close> calls on the fresh cache, \<^verbatim>\<open>Len()\<close> is at most \<open>cap\<close> after each call: the
  bound holds after the first \<open>n\<close> calls of the sequence, for every \<open>n\<close>. The write-back
  cache is given a flusher whose calls return.
\<close>

theorem Set_sequence_within_capacity:
  assumes "0 \<le> cap"
  shows "(\<exists>c. SimpleCache_run (NewSimple cap) (map (\<lambda>(k, v). OpSet k v) (take n kvs)) = Inr c \<and>
              SimpleCache_Len c \<le> cap) \<and>
         (flusher_returns f \<longrightarrow>
            (\<exists>c0 c. New cap m p (Some f) s0 = Inr c0 \<and>
                 Cache_run c0 (map (\<lambda>(k, v). OpSet k v) (take n kvs)) = Inr c \<and>
                 Cache_Len c \<le> cap))"
  using assms NewSimple_run_bounded [OF all_Sets, of cap "take n kvs"]
    New_run_bounded [OF all_Sets [of "take n kvs"], where f = f and cap = cap and m = m
      and p = p and ?s0.0 = s0]
  by simp

text \<open>The bound at capacity 1, after two of three \<^verbatim>\<open>Set\<close> calls.\<close>

theorem Set_sequence_within_capacity_witness:
  "(0::int) \<le> 1 \<and>
   (\<exists>c. SimpleCache_run (NewSimple 1)
          (map (\<lambda>(k, v). OpSet k v)
             (take 2 [(''a'', GoVal ''1''), (''b'', GoVal ''2''), (''c'', GoVal ''3'')])) = Inr c \<and>
        SimpleCache_Len c \<le> 1) \<and>
   flusher_returns (memFlusher :: (string, string \<rightharpoonup> string iface) Flusher) \<and>
   (\<exists>c0 c. New 1 (- 1) 0 (Some memFlusher) Map.empty = Inr c0 \<and>
        Cache_run c0
          (map (\<lambda>(k, v). OpSet k v)
             (take 2 [(''a'', GoVal ''1''), (''b'', GoVal ''2''), (''c'', GoVal ''3'')])) = Inr c \<and>
        Cache_Len c \<le> 1)"
proof -
  have h: "(0::int) \<le> 1" by simp
  note r = flusher_returns_memFlusher
  from Set_sequence_within_capacity [OF h, where n = 2
      and kvs = "[(''a'', GoVal ''1''), (''b'', GoVal ''2''), (''c'', GoVal ''3'')]"
      and f = memFlusher and m = "- 1" and p = 0 and ?s0.0 = Map.empty]
  show ?thesis using h r by blast
qed

text \<open>
  C1: a cache built with a negative capacity is not unbounded. The constructors store the
  capacity 1024, so after \<^verbatim>\<open>Set\<close> calls on more than 1024 distinct keys \<^verbatim>\<open>Len()\<close> is still
  at most 1024 and one of the keys that were set is no longer in the index: \<^verbatim>\<open>Get\<close>
  returns \<^verbatim>\<open>nil\<close> for it. The write-back cache is given a flusher whose calls return.
\<close>

theorem negative_capacity_is_bounded:
  assumes "cap < 0" and "distinct (map fst kvs)" and "1024 < length kvs"
  shows "(\<exists>c. SimpleCache_run (NewSimple cap) (map (\<lambda>(k, v). OpSet k v) kvs) = Inr c \<and>
              capacity c = 1024 \<and> SimpleCache_Len c \<le> 1024 \<and>
              (\<exists>k \<in> set (map fst kvs). data c k = None \<and> fst (SimpleCache_Get c k) = GoNil)) \<and>
         (flusher_returns f \<longrightarrow>
            (\<exists>c0 c. New cap m p (Some f) s0 = Inr c0 \<and>
                 Cache_run c0 (map (\<lambda>(k, v). OpSet k v) kvs) = Inr c \<and>
                 capacity c = 1024 \<and> Cache_Len c \<le> 1024 \<and>
                 (\<exists>k \<in> set (map fst kvs). data c k = None \<and> fst (Cache_Get c k) = GoNil)))"
proof -
  let ?ops = "map (\<lambda>(k, v). OpSet k v) kvs"
  let ?c0 = "NewSimple cap :: 'a SimpleCache"
  have "0 \<le> capacity ?c0" "int (length (keys_of ?c0)) \<le> capacity ?c0"
    using assms(1) by (simp_all add: capacity_NewSimple keys_of_NewSimple)
  from SimpleCache_run_bounded [OF lru_inv_NewSimple this all_Sets, of kvs] obtain c where
    c: "SimpleCache_run ?c0 ?ops = Inr c" "lru_inv c" "capacity c = capacity ?c0"
      "int (length (keys_of c)) \<le> capacity ?c0"
    by (elim exE conjE)
  from c(3) assms(1) have cap: "capacity c = 1024" by (simp add: capacity_NewSimple)
  from c(2,4) assms(1) have len: "SimpleCache_Len c \<le> 1024"
    by (simp add: SimpleCache_Len_def lru_inv_card capacity_NewSimple)
  with assms(3) have lt: "card (dom (data c)) < length (map fst kvs)"
    by (simp add: SimpleCache_Len_def)
  from c(2) have fin: "finite (dom (data c))" by (simp add: lru_inv_def)
  from some_key_absent [OF assms(2) fin lt] obtain k where
    k: "k \<in> set (map fst kvs)" "data c k = None"
    by (elim bexE)
  then have g: "fst (SimpleCache_Get c k) = GoNil" by (simp add: SimpleCache_Get_value)
  have simple: "\<exists>c. SimpleCache_run ?c0 ?ops = Inr c \<and>
              capacity c = 1024 \<and> SimpleCache_Len c \<le> 1024 \<and>
              (\<exists>k \<in> set (map fst kvs). data c k = None \<and> fst (SimpleCache_Get c k) = GoNil)"
    using c(1) cap len k g by (intro exI [of _ c] conjI bexI [of _ k])
  have "\<exists>c0 c. New cap m p (Some f) s0 = Inr c0 \<and>
              Cache_run c0 ?ops = Inr c \<and>
              capacity c = 1024 \<and> Cache_Len c \<le> 1024 \<and>
              (\<exists>k \<in> set (map fst kvs). data c k = None \<and> fst (Cache_Get c k) = GoNil)"
    if r: "flusher_returns f"
  proof -
    from New_Some [of cap m p f s0] obtain d0 where
      d0: "New cap m p (Some f) s0 = Inr d0" "flusher d0 = Some f"
        "SimpleCache.truncate d0 = NewSimple cap"
      by (elim exE conjE)
    from Cache_run_Some [OF d0(2) r, of ?ops] obtain d where d: "Cache_run d0 ?ops = Inr d"
      by (elim exE conjE)
    from truncate_run [OF d] d0(3) c(1) have eq: "c = SimpleCache.truncate d" by simp
    have t: "data d = data c" "capacity d = capacity c"
      by (simp_all add: eq SimpleCache.truncate_def)
    have t': "Cache_Len d = SimpleCache_Len c" "fst (Cache_Get d k) = fst (SimpleCache_Get c k)"
      by (simp_all add: eq Cache_Len_truncate truncate_Get)
    show ?thesis
      using d0(1) d cap len k g t t'
      by (intro exI [of _ d0] exI [of _ d] conjI bexI [of _ k]) simp_all
  qed
  with simple show ?thesis by (intro conjI impI)
qed

text \<open>
  1025 distinct keys, the strings of 0 to 1024 letters \<open>k\<close>, on a cache built with
  capacity -1.
\<close>

theorem negative_capacity_is_bounded_witness:
  "(\<exists>c. SimpleCache_run (NewSimple (- 1))
          (map (\<lambda>(k, v). OpSet k v)
             (map (\<lambda>i. (replicate i CHR ''k'', GoVal i)) [0..<1025])) = Inr c \<and>
        capacity c = 1024 \<and> SimpleCache_Len c \<le> 1024 \<and>
        (\<exists>k \<in> set (map fst (map (\<lambda>i. (replicate i CHR ''k'', GoVal i)) [0..<1025])).
           data c k = None \<and> fst (SimpleCache_Get c k) = GoNil)) \<and>
   flusher_returns (memFlusher :: (nat, string \<rightharpoonup> nat iface) Flusher) \<and>
   (\<exists>c0 c. New (- 1) (- 1) 0 (Some memFlusher) Map.empty = Inr c0 \<and>
        Cache_run c0
          (map (\<lambda>(k, v). OpSet k v)
             (map (\<lambda>i. (replicate i CHR ''k'', GoVal i)) [0..<1025])) = Inr c \<and>
        capacity c = 1024 \<and> Cache_Len c \<le> 1024 \<and>
        (\<exists>k \<in> set (map fst (map (\<lambda>i. (replicate i CHR ''k'', GoVal i)) [0..<1025])).
           data c k = None \<and> fst (Cache_Get c k) = GoNil))"
proof -
  let ?kvs = "map (\<lambda>i. (replicate i CHR ''k'', GoVal i)) [0..<1025]"
  have h1: "(- 1 :: int) < 0" by simp
  have "map fst ?kvs = map (\<lambda>i. replicate i CHR ''k'') [0..<1025]"
    by (simp only: map_map comp_def fst_conv)
  then have h2: "distinct (map fst ?kvs)" by (simp only: distinct_replicate_keys)
  have h3: "1024 < length ?kvs" by (simp only: length_map length_upt)
  note r = flusher_returns_memFlusher
  from negative_capacity_is_bounded [OF h1 h2 h3, where f = memFlusher and m = "- 1" and p = 0
      and ?s0.0 = Map.empty] r
  show ?thesis by blast
qed

section \<open>Eviction order\<close>

text \<open>
  C3: take a cache of capacity \<open>N > 0\<close>, plain or write-back, and a sequence of \<^verbatim>\<open>Set\<close>
  and \<^verbatim>\<open>Get\<close> calls on the fresh cache that inserts exactly \<open>N\<close> distinct keys. Exactly
  one of these keys is least recently touched, where every \<^verbatim>\<open>Set\<close> and every \<^verbatim>\<open>Get\<close>
  naming a key touches it. After one more \<^verbatim>\<open>Set\<close> on a new key, that key is out of the
  index and \<^verbatim>\<open>Get\<close> returns \<^verbatim>\<open>nil\<close> for it, every other inserted key is in the index and
  \<^verbatim>\<open>Get\<close> returns the value last set under it, and the new key is in the index with its
  value. The write-back cache is given a flusher whose calls return.
\<close>

theorem lru_eviction:
  assumes "list_all is_Set_or_Get ops" and "0 < N"
    and "card (set (inserted_keys ops)) = nat N" and "k' \<notin> set (inserted_keys ops)"
  shows "(\<exists>!k. lru_key ops k) \<and>
         (\<exists>c. SimpleCache_run (NewSimple N) (ops @ [OpSet k' v']) = Inr c \<and>
              lru_outcome ops k' v' (\<lambda>k. fst (SimpleCache_Get c k)) (\<lambda>k. data c k \<noteq> None)) \<and>
         (flusher_returns f \<longrightarrow>
            (\<exists>c0 c. New N m p (Some f) s0 = Inr c0 \<and>
                 Cache_run c0 (ops @ [OpSet k' v']) = Inr c \<and>
                 lru_outcome ops k' v' (\<lambda>k. fst (Cache_Get c k)) (\<lambda>k. data c k \<noteq> None)))"
  using lru_evicts_simple [OF assms, of v']
    lru_evicts_Cache [OF assms, where f = f and m = m and p = p and ?s0.0 = s0 and v' = v']
  by (intro conjI impI) simp_all

text \<open>
  Capacity 3: after \<^verbatim>\<open>Set a, Set b, Set c, Get a, Set d\<close> the key \<open>b\<close> is evicted and
  \<open>a\<close> is not.
\<close>

theorem lru_eviction_witness:
  "(\<exists>c. SimpleCache_run (NewSimple 3)
          ([OpSet ''a'' (GoVal ''1''), OpSet ''b'' (GoVal ''2''), OpSet ''c'' (GoVal ''3''),
            OpGet ''a''] @ [OpSet ''d'' (GoVal ''4'')]) = Inr c \<and>
        data c ''b'' = None \<and> fst (SimpleCache_Get c ''b'') = GoNil \<and>
        data c ''a'' \<noteq> None \<and> fst (SimpleCache_Get c ''a'') = GoVal ''1'' \<and>
        fst (SimpleCache_Get c ''c'') = GoVal ''3'' \<and>
        fst (SimpleCache_Get c ''d'') = GoVal ''4'') \<and>
   flusher_returns (memFlusher :: (string, string \<rightharpoonup> string iface) Flusher) \<and>
   (\<exists>c0 c. New 3 (- 1) 0 (Some memFlusher) Map.empty = Inr c0 \<and>
        Cache_run c0
          ([OpSet ''a'' (GoVal ''1''), OpSet ''b'' (GoVal ''2''), OpSet ''c'' (GoVal ''3''),
            OpGet ''a''] @ [OpSet ''d'' (GoVal ''4'')]) = Inr c \<and>
        data c ''b'' = None \<and> fst (Cache_Get c ''b'') = GoNil \<and>
        data c ''a'' \<noteq> None \<and> fst (Cache_Get c ''a'') = GoVal ''1'' \<and>
        fst (Cache_Get c ''c'') = GoVal ''3'' \<and>
        fst (Cache_Get c ''d'') = GoVal ''4'')"
proof -
  let ?ops = "[OpSet ''a'' (GoVal ''1''), OpSet ''b'' (GoVal ''2''), OpSet ''c'' (GoVal ''3''),
               OpGet ''a'']"
  have h1: "list_all is_Set_or_Get ?ops" by simp
  have h2: "(0::int) < 3" by simp
  have h3: "card (set (inserted_keys ?ops)) = nat 3" by simp
  have h4: "''d'' \<notin> set (inserted_keys ?ops)" by simp
  have k: "lru_key ?ops ''b''" "\<not> lru_key ?ops ''a''" "\<not> lru_key ?ops ''c''"
    by (simp_all add: lru_key_def age_def)
  have s: "stored ''a'' ?ops = Some (GoVal ''1'')" "stored ''c'' ?ops = Some (GoVal ''3'')"
    by (simp_all add: stored_def)
  have o: "lru_outcome ?ops ''d'' (GoVal ''4'') get present \<Longrightarrow>
        \<not> present ''b'' \<and> get ''b'' = GoNil \<and> present ''a'' \<and> get ''a'' = GoVal ''1'' \<and>
        get ''c'' = GoVal ''3'' \<and> get ''d'' = GoVal ''4''" for get present
    using k s by (simp add: lru_outcome_def)
  note r = flusher_returns_memFlusher
  from lru_eviction [OF h1 h2 h3 h4, where v' = "GoVal ''4''" and f = memFlusher and m = "- 1"
      and p = 0 and ?s0.0 = Map.empty] r
  show ?thesis by (auto dest!: o)
qed

section \<open>Flushing\<close>

text \<open>
  C4: \<^verbatim>\<open>Flush\<close> sends the dirty records to the flusher in the order in which they were
  appended, \<^verbatim>\<open>Remove\<close> for a record with \<open>removed\<close> set and \<^verbatim>\<open>Add\<close> for a record with
  \<open>modified\<close> set, and empties the queue; a call that panics ends the flush with that
  panic. Hence a sequence of calls followed by \<^verbatim>\<open>Flush\<close> sends to the store, after what was
  already pending, one \<^verbatim>\<open>Add\<close> for every \<^verbatim>\<open>Set\<close> and one \<^verbatim>\<open>Remove\<close> for every
  \<^verbatim>\<open>Delete\<close>, in the order of the calls, whatever flushes the threshold triggered on the
  way: it ends as making these calls in order ends, with an empty queue when they all
  return. With the map-backed flusher of the tests, a queue ending in the records of
  \<^verbatim>\<open>Set(k, v1)\<close>, \<^verbatim>\<open>Delete(k)\<close>, \<^verbatim>\<open>Set(k, v2)\<close> leaves \<open>k\<close> mapped to \<open>v2\<close>, and so do the
  three calls followed by \<^verbatim>\<open>Flush\<close>.
\<close>

theorem Flush_replays_in_order:
  assumes "flusher c = Some f" and "flusher cm = Some memFlusher"
  shows "Cache_Flush c =
           (case replay f (queue_calls (dirtyList c)) (sink c) of
              Inl p \<Rightarrow> Inl p
            | Inr s \<Rightarrow> Inr (c\<lparr>sink := s, dirtyList := []\<rparr>)) \<and>
         (case Cache_run c (ops @ [OpFlush]) of
            Inl p \<Rightarrow> Inl p
          | Inr c' \<Rightarrow> Inr (dirtyList c', sink c')) =
           (case replay f (queue_calls (dirtyList c) @ concat (map op_calls ops)) (sink c) of
              Inl p \<Rightarrow> Inl p
            | Inr s \<Rightarrow> Inr ([], s)) \<and>
         (flusher_returns f \<longrightarrow>
            (\<exists>c'. Cache_run c (ops @ [OpFlush]) = Inr c' \<and> dirtyList c' = [] \<and>
                replay f (queue_calls (dirtyList c) @ concat (map op_calls ops)) (sink c) =
                  Inr (sink c'))) \<and>
         (\<exists>c'. Cache_Flush
                 (cm\<lparr>dirtyList := q @ [upsertRecord k v1, removeRecord k, upsertRecord k v2]\<rparr>)
               = Inr c' \<and> sink c' k = Some v2) \<and>
         (\<exists>c'. Cache_run cm [OpSet k v1, OpDelete k, OpSet k v2, OpFlush] = Inr c' \<and>
             sink c' k = Some v2)"
proof (intro conjI impI)
  show "Cache_Flush c =
           (case replay f (queue_calls (dirtyList c)) (sink c) of
              Inl p \<Rightarrow> Inl p
            | Inr s \<Rightarrow> Inr (c\<lparr>sink := s, dirtyList := []\<rparr>))"
    using assms(1) by (rule Cache_Flush_replay)
next
  show "(case Cache_run c (ops @ [OpFlush]) of
            Inl p \<Rightarrow> Inl p
          | Inr c' \<Rightarrow> Inr (dirtyList c', sink c')) =
           (case replay f (queue_calls (dirtyList c) @ concat (map op_calls ops)) (sink c) of
              Inl p \<Rightarrow> Inl p
            | Inr s \<Rightarrow> Inr ([], s))"
    using assms(1) by (rule Cache_run_then_Flush)
next
  assume "flusher_returns f"
  with assms(1)
  show "\<exists>c'. Cache_run c (ops @ [OpFlush]) = Inr c' \<and> dirtyList c' = [] \<and>
                replay f (queue_calls (dirtyList c) @ concat (map op_calls ops)) (sink c) =
                  Inr (sink c')"
    by (rule Cache_run_then_Flush_returns)
next
  let ?c = "cm\<lparr>dirtyList := q @ [upsertRecord k v1, removeRecord k, upsertRecord k v2]\<rparr>"
  have q: "queue_calls (q @ [upsertRecord k v1, removeRecord k, upsertRecord k v2]) =
        queue_calls q @ [CallAdd k v1, CallRemove k, CallAdd k v2]"
    using queue_calls_append [of q "[upsertRecord k v1, removeRecord k, upsertRecord k v2]"]
      queue_calls_append [of "[upsertRecord k v1]" "[removeRecord k, upsertRecord k v2]"]
      queue_calls_append [of "[removeRecord k]" "[upsertRecord k v2]"]
    by (simp add: queue_calls_simps)
  from replay_returns [OF flusher_returns_memFlusher, of "queue_calls q" "sink cm"]
  obtain s1 where s1: "replay memFlusher (queue_calls q) (sink cm) = Inr s1"
    by (elim exE)
  from assms(2) have "flusher ?c = Some memFlusher" by simp
  from Cache_Flush_replay [OF this]
  show "\<exists>c'. Cache_Flush ?c = Inr c' \<and> sink c' k = Some v2"
    by (simp add: q replay_append s1) (simp add: memFlusher_def)
next
  let ?calls = "[CallAdd k v1, CallRemove k, CallAdd k v2]"
  from replay_returns [OF flusher_returns_memFlusher, of "queue_calls (dirtyList cm)" "sink cm"]
  obtain s1 where s1: "replay memFlusher (queue_calls (dirtyList cm)) (sink cm) = Inr s1"
    by (elim exE)
  have r: "replay memFlusher (queue_calls (dirtyList cm) @ ?calls) (sink cm) =
        Inr (s1(k \<mapsto> v2))"
    by (simp add: replay_append s1) (simp add: memFlusher_def)
  from Cache_run_then_Flush_returns [OF assms(2) flusher_returns_memFlusher,
      of "[OpSet k v1, OpDelete k, OpSet k v2]"]
  obtain c' where
    c': "Cache_run cm ([OpSet k v1, OpDelete k, OpSet k v2] @ [OpFlush]) = Inr c'"
      "replay memFlusher
         (queue_calls (dirtyList cm) @ concat (map op_calls [OpSet k v1, OpDelete k, OpSet k v2]))
         (sink cm) = Inr (sink c')"
    by (elim exE conjE)
  from c'(2) r have "sink c' = s1(k \<mapsto> v2)" by simp
  then have "sink c' k = Some v2" by simp
  with c'(1) show "\<exists>c'. Cache_run cm [OpSet k v1, OpDelete k, OpSet k v2, OpFlush] = Inr c' \<and>
             sink c' k = Some v2"
    by simp
qed

text \<open>The three calls on the key \<open>k\<close> with the values "1" and "2", on a fresh cache.\<close>

theorem Flush_replays_in_order_witness:
  "\<exists>c0 c'. New 5 (- 1) 0 (Some memFlusher) Map.empty = Inr c0 \<and>
      flusher c0 = Some memFlusher \<and>
      Cache_run c0 [OpSet ''k'' (GoVal ''1''), OpDelete ''k'', OpSet ''k'' (GoVal ''2''), OpFlush]
        = Inr c' \<and>
      sink c' ''k'' = Some (GoVal ''2'')"
proof -
  from New_Some [of 5 "- 1" 0 memFlusher Map.empty] obtain c0
    :: "(string, string \<rightharpoonup> string iface) Cache" where
    c0: "New 5 (- 1) 0 (Some memFlusher) Map.empty = Inr c0" "flusher c0 = Some memFlusher"
    by (elim exE conjE)
  from Flush_replays_in_order [OF c0(2) c0(2), where k = "''k''" and ?v1.0 = "GoVal ''1''"
      and ?v2.0 = "GoVal ''2''" and ops = "[]" and q = "[]"]
  have "\<exists>c'. Cache_run c0
           [OpSet ''k'' (GoVal ''1''), OpDelete ''k'', OpSet ''k'' (GoVal ''2''), OpFlush] = Inr c' \<and>
           sink c' ''k'' = Some (GoVal ''2'')"
    by (elim conjE)
  then obtain c' where
    "Cache_run c0 [OpSet ''k'' (GoVal ''1''), OpDelete ''k'', OpSet ''k'' (GoVal ''2''), OpFlush]
        = Inr c'" "sink c' ''k'' = Some (GoVal ''2'')"
    by (elim exE conjE)
  with c0 show ?thesis by (intro exI conjI)
qed

text \<open>
  C5, as the code has it: \<^verbatim>\<open>Set\<close> on a write-back cache with a flusher appends its record
  and then, when \<open>maxNrDirty \<ge> 0\<close> and the queue has reached \<open>maxNrDirty\<close> records,
  flushes the whole queue: it ends as the calls of that flush end, and when they return
  the queue is empty. So with \<open>maxNrDirty \<ge> 0\<close> the queue is empty or shorter than
  \<open>maxNrDirty\<close> when \<^verbatim>\<open>Set\<close> returns, and \<^verbatim>\<open>Set\<close> returns when the calls of the flusher
  do. With \<open>maxNrDirty < 0\<close> neither \<^verbatim>\<open>Set\<close> nor \<^verbatim>\<open>Delete\<close> flushes: the queue grows by one
  record and the store is untouched.
\<close>

theorem Set_flush_threshold:
  assumes "flusher c = Some f"
  shows "(if 0 \<le> maxNrDirty c \<and> maxNrDirty c \<le> int (length (dirtyList c)) + 1
          then (case replay f (queue_calls (dirtyList c @ [upsertRecord k v])) (sink c) of
                  Inl p \<Rightarrow> Cache_Set c k v = Inl p
                | Inr s \<Rightarrow>
                    (\<exists>c'. Cache_Set c k v = Inr c' \<and> dirtyList c' = [] \<and> sink c' = s))
          else (\<exists>c'. Cache_Set c k v = Inr c' \<and>
                  dirtyList c' = dirtyList c @ [upsertRecord k v] \<and> sink c' = sink c)) \<and>
         (flusher_returns f \<longrightarrow>
            (\<exists>c'. Cache_Set c k v = Inr c' \<and>
               (if 0 \<le> maxNrDirty c \<and> maxNrDirty c \<le> int (length (dirtyList c)) + 1
                then dirtyList c' = [] \<and>
                     replay f (queue_calls (dirtyList c @ [upsertRecord k v])) (sink c) =
                       Inr (sink c')
                else dirtyList c' = dirtyList c @ [upsertRecord k v] \<and> sink c' = sink c))) \<and>
         (\<forall>c'. Cache_Set c k v = Inr c' \<longrightarrow> 0 \<le> maxNrDirty c \<longrightarrow>
              dirtyList c' = [] \<or> int (length (dirtyList c')) < maxNrDirty c) \<and>
         (maxNrDirty c < 0 \<longrightarrow>
            (\<exists>c'. Cache_Set c k v = Inr c' \<and>
               dirtyList c' = dirtyList c @ [upsertRecord k v] \<and> sink c' = sink c) \<and>
            dirtyList (snd (Cache_Delete c k)) = dirtyList c @ [removeRecord k] \<and>
            sink (snd (Cache_Delete c k)) = sink c)"
proof -
  let ?T = "0 \<le> maxNrDirty c \<and> maxNrDirty c \<le> int (length (dirtyList c)) + 1"
  let ?R = "replay f (queue_calls (dirtyList c @ [upsertRecord k v])) (sink c)"
  note e = Cache_Set_effect [OF assms, of k v]
  have first: "if ?T
          then (case ?R of
                  Inl p \<Rightarrow> Cache_Set c k v = Inl p
                | Inr s \<Rightarrow>
                    (\<exists>c'. Cache_Set c k v = Inr c' \<and> dirtyList c' = [] \<and> sink c' = s))
          else (\<exists>c'. Cache_Set c k v = Inr c' \<and>
                  dirtyList c' = dirtyList c @ [upsertRecord k v] \<and> sink c' = sink c)"
  proof (cases ?T)
    case True
    show ?thesis
    proof (cases ?R)
      case (Inl p)
      with e True show ?thesis by simp
    next
      case (Inr s)
      with e True show ?thesis by auto
    qed
  next
    case False
    with e have "\<exists>c'. Cache_Set c k v = Inr c' \<and>
                  dirtyList c' = dirtyList c @ [upsertRecord k v] \<and> sink c' = sink c"
      by auto
    with False show ?thesis by (simp only: if_False)
  qed
  have returns: "\<exists>c'. Cache_Set c k v = Inr c' \<and>
               (if ?T then dirtyList c' = [] \<and> ?R = Inr (sink c')
                else dirtyList c' = dirtyList c @ [upsertRecord k v] \<and> sink c' = sink c)"
    if r: "flusher_returns f"
  proof (cases ?T)
    case True
    from replay_returns [OF r, of "queue_calls (dirtyList c @ [upsertRecord k v])" "sink c"]
    obtain s where s: "?R = Inr s" by (elim exE)
    with first True obtain c' where
      "Cache_Set c k v = Inr c'" "dirtyList c' = []" "sink c' = s"
      by auto
    with s True show ?thesis by (intro exI [of _ c']) simp
  next
    case False
    with first obtain c' where
      "Cache_Set c k v = Inr c'" "dirtyList c' = dirtyList c @ [upsertRecord k v]"
      "sink c' = sink c"
      by auto
    with False show ?thesis by (intro exI [of _ c']) simp
  qed
  have short: "dirtyList c' = [] \<or> int (length (dirtyList c')) < maxNrDirty c"
    if c': "Cache_Set c k v = Inr c'" and m: "0 \<le> maxNrDirty c" for c'
  proof (cases ?T)
    case True
    with first c' show ?thesis by (cases ?R) auto
  next
    case False
    with first c' m show ?thesis by auto
  qed
  have neg: "(\<exists>c'. Cache_Set c k v = Inr c' \<and>
               dirtyList c' = dirtyList c @ [upsertRecord k v] \<and> sink c' = sink c) \<and>
            dirtyList (snd (Cache_Delete c k)) = dirtyList c @ [removeRecord k] \<and>
            sink (snd (Cache_Delete c k)) = sink c"
    if "maxNrDirty c < 0"
  proof -
    from that have "\<not> ?T" by simp
    with first have "\<exists>c'. Cache_Set c k v = Inr c' \<and>
               dirtyList c' = dirtyList c @ [upsertRecord k v] \<and> sink c' = sink c"
      by (simp only: if_False)
    with Cache_Delete_effect [of c k] show ?thesis by simp
  qed
  from first returns short neg show ?thesis by blast
qed

text \<open>
  With \<open>maxNrDirty = 1\<close> the first \<^verbatim>\<open>Set\<close> already flushes; with \<open>maxNrDirty = -1\<close> it
  leaves its record in the queue and the store empty.
\<close>

theorem Set_flush_threshold_witness:
  "flusher_returns (memFlusher :: (string, string \<rightharpoonup> string iface) Flusher) \<and>
   (\<exists>c0 c'. New 5 1 0 (Some memFlusher) Map.empty = Inr c0 \<and>
      flusher c0 = Some memFlusher \<and>
      Cache_Set c0 ''k'' (GoVal ''1'') = Inr c' \<and>
      dirtyList c' = [] \<and> sink c' ''k'' = Some (GoVal ''1'')) \<and>
   (\<exists>c0 c'. New 5 (- 1) 0 (Some memFlusher) Map.empty = Inr c0 \<and>
      flusher c0 = Some memFlusher \<and>
      Cache_Set c0 ''k'' (GoVal ''1'') = Inr c' \<and>
      dirtyList c' = [upsertRecord ''k'' (GoVal ''1'')] \<and> sink c' = Map.empty)"
proof (intro conjI)
  show "flusher_returns (memFlusher :: (string, string \<rightharpoonup> string iface) Flusher)"
    by (rule flusher_returns_memFlusher)
next
  from New_Some [of 5 1 0 memFlusher Map.empty] obtain c0
    :: "(string, string \<rightharpoonup> string iface) Cache" where
    c0: "New 5 1 0 (Some memFlusher) Map.empty = Inr c0" "flusher c0 = Some memFlusher"
      "maxNrDirty c0 = 1" "dirtyList c0 = []" "sink c0 = Map.empty"
    by (elim exE conjE)
  from Set_flush_threshold [OF c0(2), of "''k''" "GoVal ''1''"] flusher_returns_memFlusher
  have "\<exists>c'. Cache_Set c0 ''k'' (GoVal ''1'') = Inr c' \<and>
               (if 0 \<le> maxNrDirty c0 \<and> maxNrDirty c0 \<le> int (length (dirtyList c0)) + 1
                then dirtyList c' = [] \<and>
                     replay memFlusher
                       (queue_calls (dirtyList c0 @ [upsertRecord ''k'' (GoVal ''1'')])) (sink c0) =
                       Inr (sink c')
                else dirtyList c' = dirtyList c0 @ [upsertRecord ''k'' (GoVal ''1'')] \<and>
                     sink c' = sink c0)"
    by blast
  then obtain c' where
    c': "Cache_Set c0 ''k'' (GoVal ''1'') = Inr c'"
      "if 0 \<le> maxNrDirty c0 \<and> maxNrDirty c0 \<le> int (length (dirtyList c0)) + 1
       then dirtyList c' = [] \<and>
            replay memFlusher
              (queue_calls (dirtyList c0 @ [upsertRecord ''k'' (GoVal ''1'')])) (sink c0) =
              Inr (sink c')
       else dirtyList c' = dirtyList c0 @ [upsertRecord ''k'' (GoVal ''1'')] \<and> sink c' = sink c0"
    by (elim exE conjE)
  from c'(2) c0(3,4,5) have d: "dirtyList c' = []"
    and "sink c' = Map.empty(''k'' \<mapsto> GoVal ''1'')"
    by (simp_all add: queue_calls_simps memFlusher_def eq_commute [of _ "sink c'"])
  then have "sink c' ''k'' = Some (GoVal ''1'')" by simp
  with c0(1,2) c'(1) d
  show "\<exists>c0 c'. New 5 1 0 (Some memFlusher) Map.empty = Inr c0 \<and>
      flusher c0 = Some memFlusher \<and>
      Cache_Set c0 ''k'' (GoVal ''1'') = Inr c' \<and>
      dirtyList c' = [] \<and> sink c' ''k'' = Some (GoVal ''1'')"
    by (intro exI conjI)
next
  from New_Some [of 5 "- 1" 0 memFlusher Map.empty] obtain c0
    :: "(string, string \<rightharpoonup> string iface) Cache" where
    c0: "New 5 (- 1) 0 (Some memFlusher) Map.empty = Inr c0" "flusher c0 = Some memFlusher"
      "maxNrDirty c0 = - 1" "dirtyList c0 = []" "sink c0 = Map.empty"
    by (elim exE conjE)
  from Set_flush_threshold [OF c0(2), of "''k''" "GoVal ''1''"] c0(3)
  have "\<exists>c'. Cache_Set c0 ''k'' (GoVal ''1'') = Inr c' \<and>
               dirtyList c' = dirtyList c0 @ [upsertRecord ''k'' (GoVal ''1'')] \<and>
               sink c' = sink c0"
    by simp
  then obtain c' where
    c': "Cache_Set c0 ''k'' (GoVal ''1'') = Inr c'"
      "dirtyList c' = dirtyList c0 @ [upsertRecord ''k'' (GoVal ''1'')]" "sink c' = sink c0"
    by (elim exE conjE)
  from c'(2,3) c0(4,5)
  have "dirtyList c' = [upsertRecord ''k'' (GoVal ''1'')]" "sink c' = Map.empty"
    by simp_all
  with c0(1,2) c'(1)
  show "\<exists>c0 c'. New 5 (- 1) 0 (Some memFlusher) Map.empty = Inr c0 \<and>
      flusher c0 = Some memFlusher \<and>
      Cache_Set c0 ''k'' (GoVal ''1'') = Inr c' \<and>
      dirtyList c' = [upsertRecord ''k'' (GoVal ''1'')] \<and> sink c' = Map.empty"
    by (intro exI conjI)
qed

text \<open>
  C5 as stated fails twice. With \<open>maxNrDirty = 0\<close> the queue is empty after \<^verbatim>\<open>Set\<close>, which
  is not shorter than 0. And \<^verbatim>\<open>Delete\<close> never checks the threshold: with
  \<open>maxNrDirty = 1\<close> it leaves one record in the queue and the store untouched.
\<close>

theorem flush_threshold_counterexample:
  "(\<exists>c0 c1. New 5 0 0 (Some memFlusher) Map.empty = Inr c0 \<and>
       Cache_Set c0 ''k'' (GoVal ''1'') = Inr c1 \<and> maxNrDirty c1 = 0 \<and>
       \<not> int (length (dirtyList c1)) < maxNrDirty c1) \<and>
   (\<exists>c0 c1. New 5 1 0 (Some memFlusher) Map.empty = Inr c0 \<and>
       c1 = snd (Cache_Delete c0 ''k'') \<and> maxNrDirty c1 = 1 \<and>
       \<not> int (length (dirtyList c1)) < maxNrDirty c1 \<and>
       sink c1 = (Map.empty :: string \<rightharpoonup> string iface))"
  by (simp add: New_def Cache_Set_def Cache_Set_body_def checkAndFlush_def Cache_Flush_def
      Cache_Delete_def list_ops Let_def memFlusher_def)

section \<open>The absent outcome\<close>

text \<open>
  C7, as the code has it: in every state reached from a fresh cache, plain or write-back,
  \<^verbatim>\<open>Get\<close> and \<^verbatim>\<open>Delete\<close> return \<^verbatim>\<open>nil\<close> for a key that is not in the index, and for a key
  in the index they return the value of the last \<^verbatim>\<open>Set\<close> on that key. So every result
  other than \<^verbatim>\<open>nil\<close> is a value that the caller stored under the key and that was not
  deleted since.
\<close>

theorem absent_is_nil:
  assumes "SimpleCache_run (NewSimple cap) ops = Inr c"
    and "New cap' m per fl s0 = Inr d0" and "Cache_run d0 ops' = Inr d"
  shows "(data c k = None \<longrightarrow>
            fst (SimpleCache_Get c k) = GoNil \<and> fst (SimpleCache_Delete c k) = GoNil) \<and>
         (data c k \<noteq> None \<longrightarrow>
            Some (fst (SimpleCache_Get c k)) = stored k ops \<and>
            Some (fst (SimpleCache_Delete c k)) = stored k ops) \<and>
         (fst (SimpleCache_Get c k) \<noteq> GoNil \<longrightarrow> stored k ops = Some (fst (SimpleCache_Get c k))) \<and>
         (fst (SimpleCache_Delete c k) \<noteq> GoNil \<longrightarrow>
            stored k ops = Some (fst (SimpleCache_Delete c k))) \<and>
         (data d k = None \<longrightarrow>
            fst (Cache_Get d k) = GoNil \<and> fst (Cache_Delete d k) = GoNil) \<and>
         (data d k \<noteq> None \<longrightarrow>
            Some (fst (Cache_Get d k)) = stored k ops' \<and>
            Some (fst (Cache_Delete d k)) = stored k ops') \<and>
         (fst (Cache_Get d k) \<noteq> GoNil \<longrightarrow> stored k ops' = Some (fst (Cache_Get d k))) \<and>
         (fst (Cache_Delete d k) \<noteq> GoNil \<longrightarrow> stored k ops' = Some (fst (Cache_Delete d k)))"
proof -
  let ?t = "SimpleCache.truncate d"
  from truncate_run [OF assms(3)] truncate_New [OF assms(2)]
  have "SimpleCache_run (NewSimple cap') ops' = Inr ?t" by simp
  then have "val_inv ops' ?t" by (rule val_inv_run)
  from val_inv_results [OF this, of k]
  have cache: "(data d k = None \<longrightarrow>
            fst (Cache_Get d k) = GoNil \<and> fst (Cache_Delete d k) = GoNil) \<and>
         (data d k \<noteq> None \<longrightarrow>
            Some (fst (Cache_Get d k)) = stored k ops' \<and>
            Some (fst (Cache_Delete d k)) = stored k ops') \<and>
         (fst (Cache_Get d k) \<noteq> GoNil \<longrightarrow> stored k ops' = Some (fst (Cache_Get d k))) \<and>
         (fst (Cache_Delete d k) \<noteq> GoNil \<longrightarrow> stored k ops' = Some (fst (Cache_Delete d k)))"
    by (simp only: truncate_Get truncate_Delete fst_conv)
      (simp only: SimpleCache.truncate_def SimpleCache.select_convs)
  from val_inv_results [OF val_inv_run [OF assms(1)], of k] cache show ?thesis
    by blast
qed

text \<open>One key set to "1": it is returned, another key gives \<^verbatim>\<open>nil\<close>.\<close>

theorem absent_is_nil_witness:
  "\<exists>c d0 d. SimpleCache_run (NewSimple 5) [OpSet ''k'' (GoVal ''1'')] = Inr c \<and>
      New 5 (- 1) 0 (Some memFlusher) Map.empty = Inr d0 \<and>
      Cache_run d0 [OpSet ''k'' (GoVal ''1'')] = Inr d \<and>
      fst (SimpleCache_Get c ''k'') = GoVal ''1'' \<and> fst (SimpleCache_Get c ''j'') = GoNil \<and>
      fst (Cache_Get d ''k'') = GoVal ''1'' \<and> fst (Cache_Get d ''j'') = GoNil"
proof -
  let ?ops = "[OpSet ''k'' (GoVal ''1'')]"
  have "\<exists>c :: string SimpleCache. SimpleCache_run (NewSimple 5) ?ops = Inr c \<and>
          data c ''k'' \<noteq> None \<and> data c ''j'' = None"
    by (simp add: SimpleCache_Set_def NewSimple_def list_ops Let_def)
  then obtain c :: "string SimpleCache" where
    c: "SimpleCache_run (NewSimple 5) ?ops = Inr c" "data c ''k'' \<noteq> None" "data c ''j'' = None"
    by (elim exE conjE)
  have "\<exists>(d0 :: (string, string \<rightharpoonup> string iface) Cache) d.
          New 5 (- 1) 0 (Some memFlusher) Map.empty = Inr d0 \<and> Cache_run d0 ?ops = Inr d \<and>
          data d ''k'' \<noteq> None \<and> data d ''j'' = None"
    by (simp add: New_def Cache_Set_def Cache_Set_body_def checkAndFlush_def list_ops Let_def)
  then obtain d0 :: "(string, string \<rightharpoonup> string iface) Cache" and d where
    d: "New 5 (- 1) 0 (Some memFlusher) Map.empty = Inr d0" "Cache_run d0 ?ops = Inr d"
      "data d ''k'' \<noteq> None" "data d ''j'' = None"
    by (elim exE conjE)
  have s: "stored ''k'' ?ops = Some (GoVal ''1'')" by (simp add: stored_def)
  note k = absent_is_nil [OF c(1) d(1) d(2), of "''k''"]
  note j = absent_is_nil [OF c(1) d(1) d(2), of "''j''"]
  from k c(2) have "Some (fst (SimpleCache_Get c ''k'')) = stored ''k'' ?ops" by blast
  with s have ck: "fst (SimpleCache_Get c ''k'') = GoVal ''1''" by simp
  from j c(3) have cj: "fst (SimpleCache_Get c ''j'') = GoNil" by blast
  from k d(3) have "Some (fst (Cache_Get d ''k'')) = stored ''k'' ?ops" by blast
  with s have dk: "fst (Cache_Get d ''k'') = GoVal ''1''" by simp
  from j d(4) have dj: "fst (Cache_Get d ''j'') = GoNil" by blast
  from c(1) d(1,2) ck cj dk dj show ?thesis by (intro exI conjI)
qed

text \<open>
  C7 as stated fails: \<^verbatim>\<open>nil\<close> is a value a caller can store, and \<^verbatim>\<open>Get\<close> and \<^verbatim>\<open>Delete\<close>
  return the same for a key holding \<^verbatim>\<open>nil\<close> as for an absent key.
\<close>

theorem nil_value_counterexample:
  "\<exists>c. SimpleCache_run (NewSimple 5) [OpSet ''k'' (GoNil :: string iface)] = Inr c \<and>
      data c ''k'' \<noteq> None \<and> data (NewSimple 5 :: string SimpleCache) ''k'' = None \<and>
      fst (SimpleCache_Get c ''k'') = fst (SimpleCache_Get (NewSimple 5 :: string SimpleCache) ''k'') \<and>
      fst (SimpleCache_Delete c ''k'') =
        fst (SimpleCache_Delete (NewSimple 5 :: string SimpleCache) ''k'')"
  by (simp add: SimpleCache_Set_def SimpleCache_Get_def SimpleCache_Delete_def NewSimple_def
      list_ops Let_def)

section \<open>Index and list\<close>

text \<open>
  C2: \<^verbatim>\<open>Delete\<close> does not preserve the invariant. It removes the key from the index and
  leaves its node in the list, in both variants: after \<^verbatim>\<open>Set(key1)\<close>, \<^verbatim>\<open>Delete(key1)\<close>
  the index is empty and the list has one node. The stale node later takes the place of a
  live entry at eviction: with capacity 1, \<^verbatim>\<open>Set a, Delete a, Set b, Set c\<close> ends with
  two entries in the index.
\<close>

theorem Delete_breaks_index_list_inv:
  "(\<exists>c. SimpleCache_run (NewSimple 5) [OpSet ''key1'' (GoVal ''1'')] = Inr c \<and>
        index_list_inv c \<and>
        \<not> index_list_inv (snd (SimpleCache_Delete c ''key1'')) \<and>
        SimpleCache_Len (snd (SimpleCache_Delete c ''key1'')) = 0 \<and>
        length (list (snd (SimpleCache_Delete c ''key1''))) = 1) \<and>
   (\<exists>d0 d. New 5 (- 1) 0 (Some memFlusher) Map.empty = Inr d0 \<and>
        Cache_run d0 [OpSet ''key1'' (GoVal ''1'')] = Inr d \<and>
        index_list_inv d \<and>
        \<not> index_list_inv (snd (Cache_Delete d ''key1'')) \<and>
        Cache_Len (snd (Cache_Delete d ''key1'')) = 0 \<and>
        length (list (snd (Cache_Delete d ''key1''))) = 1) \<and>
   (\<exists>c. SimpleCache_run (NewSimple 1)
          [OpSet ''a'' (GoVal ''1''), OpDelete ''a'', OpSet ''b'' (GoVal ''2''),
           OpSet ''c'' (GoVal ''3'')] = Inr c \<and>
        capacity c = 1 \<and> SimpleCache_Len c = 2)"
  by (simp add: SimpleCache_Set_def SimpleCache_Delete_def NewSimple_def SimpleCache_Len_def
      New_def Cache_Set_def Cache_Set_body_def checkAndFlush_def Cache_Delete_def Cache_Len_def
      index_list_inv_def list_ops Let_def)

text \<open>After the deletion the sizes of index and list differ.\<close>

theorem Delete_breaks_index_list_inv_witness:
  "\<exists>c. SimpleCache_run (NewSimple 5) [OpSet ''key1'' (GoVal ''1'')] = Inr c \<and>
      SimpleCache_Len (snd (SimpleCache_Delete c ''key1'')) \<noteq>
        int (length (list (snd (SimpleCache_Delete c ''key1''))))"
proof -
  from Delete_breaks_index_list_inv obtain c :: "string SimpleCache" where
    "SimpleCache_run (NewSimple 5) [OpSet ''key1'' (GoVal ''1'')] = Inr c"
    "SimpleCache_Len (snd (SimpleCache_Delete c ''key1'')) = 0"
    "length (list (snd (SimpleCache_Delete c ''key1''))) = 1"
    by (elim exE conjE)
  then show ?thesis by (intro exI [of _ c]) simp
qed

section \<open>Panics\<close>

text \<open>
  C9, as the code has it: \<^verbatim>\<open>New\<close> panics exactly when the flusher is the \<^verbatim>\<open>nil\<close>
  interface value. On a cache built by \<^verbatim>\<open>NewSimple\<close> every sequence of \<^verbatim>\<open>Set\<close>, \<^verbatim>\<open>Get\<close>,
  \<^verbatim>\<open>Delete\<close> and \<^verbatim>\<open>Flush\<close> calls runs to its end without a panic, and so it does on a
  cache built by \<^verbatim>\<open>New\<close> with a flusher whose calls return. With any flusher, a panic of
  the write-back cache is the panic of a call of \<^verbatim>\<open>Add\<close> or \<^verbatim>\<open>Remove\<close> that a flush
  made: making the calls of the sequence on the flusher, in order, ends with that panic.
  \<^verbatim>\<open>NewSimple\<close>, \<^verbatim>\<open>Len\<close>, \<^verbatim>\<open>Get\<close> and \<^verbatim>\<open>Delete\<close> have no failing branch.
\<close>

theorem only_flusher_calls_panic:
  "(\<exists>p. New cap m per fl s0 = Inl p) = (fl = None) \<and>
   New cap m per None s0 = Inl (Panic ''Should use NewSimple'') \<and>
   (\<exists>c. SimpleCache_run (NewSimple cap) ops = Inr c) \<and>
   (\<exists>c0. New cap m per (Some f) s0 = Inr c0 \<and>
      (flusher_returns f \<longrightarrow> (\<exists>c. Cache_run c0 ops = Inr c)) \<and>
      (\<forall>p. Cache_run c0 ops = Inl p \<longrightarrow> replay f (concat (map op_calls ops)) s0 = Inl p))"
proof (intro conjI)
  show "(\<exists>p. New cap m per fl s0 = Inl p) = (fl = None)"
    by (simp add: New_def Let_def)
next
  show "New cap m per None s0 = Inl (Panic ''Should use NewSimple'')"
    by (simp add: New_def Let_def)
next
  show "\<exists>c. SimpleCache_run (NewSimple cap) ops = Inr c"
    by (rule SimpleCache_run_total)
next
  from New_Some [of cap m per f s0] obtain c0 where
    c0: "New cap m per (Some f) s0 = Inr c0" "flusher c0 = Some f"
      "dirtyList c0 = []" "sink c0 = s0"
    by (elim exE conjE)
  have a: "\<exists>c. Cache_run c0 ops = Inr c" if "flusher_returns f"
    using Cache_run_Some [OF c0(2) that, of ops] by (elim exE conjE) (rule exI)
  have b: "replay f (concat (map op_calls ops)) s0 = Inl p" if "Cache_run c0 ops = Inl p" for p
    using Cache_run_pending [OF c0(2), of ops] that c0(3,4)
    by (simp add: queue_calls_simps)
  from c0(1) a b
  show "\<exists>c0. New cap m per (Some f) s0 = Inr c0 \<and>
      (flusher_returns f \<longrightarrow> (\<exists>c. Cache_run c0 ops = Inr c)) \<and>
      (\<forall>p. Cache_run c0 ops = Inl p \<longrightarrow> replay f (concat (map op_calls ops)) s0 = Inl p)"
    by blast
qed

text \<open>
  The map-backed flusher returns, and a sequence of calls on its cache runs to the end. The
  same flusher as a \<^verbatim>\<open>nil\<close> pointer is accepted by \<^verbatim>\<open>New\<close>, and the panic of the first
  \<^verbatim>\<open>Set\<close>, which flushes, is the panic of its \<^verbatim>\<open>Add\<close>.
\<close>

theorem only_flusher_calls_panic_witness:
  "flusher_returns (memFlusher :: (string, string \<rightharpoonup> string iface) Flusher) \<and>
   (\<exists>c0 c. New 5 1 0 (Some memFlusher) Map.empty = Inr c0 \<and>
      Cache_run c0 [OpSet ''k'' (GoVal ''1''), OpDelete ''k'', OpFlush] = Inr c) \<and>
   (\<exists>c0. New 5 1 0 (Some nilMemFlusher) Map.empty = Inr c0 \<and>
      Cache_run c0 [OpSet ''k'' (GoVal ''1'')] = Inl NilDereference \<and>
      replay nilMemFlusher (concat (map op_calls [OpSet ''k'' (GoVal ''1'')]))
        (Map.empty :: string \<rightharpoonup> string iface) = Inl NilDereference)"
proof (intro conjI)
  show "flusher_returns (memFlusher :: (string, string \<rightharpoonup> string iface) Flusher)"
    by (rule flusher_returns_memFlusher)
next
  from only_flusher_calls_panic [where cap = 5 and m = 1 and per = 0 and f = memFlusher
      and ?s0.0 = "Map.empty :: string \<rightharpoonup> string iface"
      and ops = "[OpSet ''k'' (GoVal ''1''), OpDelete ''k'', OpFlush]" and fl = None]
    flusher_returns_memFlusher
  show "\<exists>c0 c. New 5 1 0 (Some memFlusher) (Map.empty :: string \<rightharpoonup> string iface) = Inr c0 \<and>
      Cache_run c0 [OpSet ''k'' (GoVal ''1''), OpDelete ''k'', OpFlush] = Inr c"
    by blast
next
  have run: "\<exists>c0 :: (string, string \<rightharpoonup> string iface) Cache.
      New 5 1 0 (Some nilMemFlusher) Map.empty = Inr c0 \<and>
      Cache_run c0 [OpSet ''k'' (GoVal ''1'')] = Inl NilDereference"
    by (simp add: New_def Cache_Set_def Cache_Set_body_def checkAndFlush_def Cache_Flush_def
        list_ops Let_def nilMemFlusher_def)
  then obtain c0 :: "(string, string \<rightharpoonup> string iface) Cache" where
    c0: "New 5 1 0 (Some nilMemFlusher) Map.empty = Inr c0"
      "Cache_run c0 [OpSet ''k'' (GoVal ''1'')] = Inl NilDereference"
    by (elim exE conjE)
  from only_flusher_calls_panic [where cap = 5 and m = 1 and per = 0 and f = nilMemFlusher
      and ?s0.0 = "Map.empty :: string \<rightharpoonup> string iface"
      and ops = "[OpSet ''k'' (GoVal ''1'')]" and fl = None] c0
  have "replay nilMemFlusher (concat (map op_calls [OpSet ''k'' (GoVal ''1'')]))
        (Map.empty :: string \<rightharpoonup> string iface) = Inl NilDereference"
    by auto
  with c0
  show "\<exists>c0. New 5 1 0 (Some nilMemFlusher) Map.empty = Inr c0 \<and>
      Cache_run c0 [OpSet ''k'' (GoVal ''1'')] = Inl NilDereference \<and>
      replay nilMemFlusher (concat (map op_calls [OpSet ''k'' (GoVal ''1'')]))
        (Map.empty :: string \<rightharpoonup> string iface) = Inl NilDereference"
    by (intro exI [of _ c0] conjI)
qed

text \<open>
  C9 as stated fails: a \<^verbatim>\<open>nil\<close> \<^verbatim>\<open>*memFlusher\<close> passed as the flusher is not the \<^verbatim>\<open>nil\<close>
  interface value, so \<^verbatim>\<open>New\<close> returns a cache, and with \<open>maxNrDirty = 1\<close> the first
  \<^verbatim>\<open>Set\<close> on that cache panics in the flush; so does \<^verbatim>\<open>Flush\<close> after a \<^verbatim>\<open>Delete\<close>.
\<close>

theorem nil_pointer_flusher_counterexample:
  "\<exists>c0 :: (string, string \<rightharpoonup> string iface) Cache.
      New 5 1 0 (Some nilMemFlusher) Map.empty = Inr c0 \<and>
      Cache_Set c0 ''k'' (GoVal ''1'') = Inl NilDereference \<and>
      Cache_Flush (snd (Cache_Delete c0 ''k'')) = Inl NilDereference"
  by (simp add: New_def Cache_Set_def Cache_Set_body_def checkAndFlush_def Cache_Flush_def
      Cache_Delete_def list_ops Let_def nilMemFlusher_def)

end
